theory Spec2Isabelle
  imports Main "HOL-Library.Sublist" "HOL-Library.Multiset"
begin

section \<open>Data model\<close>

text \<open>
  The analyzer service of the Well-Architected IaC analyzer, embedded shallowly.
  JavaScript strings are modelled as \<^typ>\<open>string\<close> (lists of 8-bit characters, so code
  units up to U+00FF); objects are records; a property that may be absent at run time
  (\<open>undefined\<close>) is an \<^typ>\<open>'a option\<close>; a thrown \<open>Error\<close> is the \<open>Inl\<close> of a sum
  carrying its message.
\<close>

record QuestionGroup =
  pillar :: string
  title :: string
  questionId :: string
  bestPractices :: "string list"
  bestPracticeIds :: "string list"

record WellArchitectedBestPractice =
  Pillar :: string
  Question :: string
  wa_questionId :: string
  Best_Practice :: string
  bestPracticeId :: string

record BestPractice =
  name :: string
  applied :: bool
  reasonApplied :: "string option"
  reasonNotApplied :: "string option"
  recommendations :: "string option"

text \<open>
  \<open>ModelResponse\<close> is what \<open>JSON.parse\<close> made of the model's text: the \<open>bestPractices\<close>
  property is absent (\<open>None\<close>) when the model answered with some other JSON object.
\<close>

record ModelResponse =
  mr_bestPractices :: "BestPractice list option"

text \<open>The object literal built by \<open>parseModelResponse\<close>: the verdict's fields plus \<open>id\<close>.\<close>

record AnalyzedPractice = BestPractice +
  practiceId :: "string option"

section \<open>Strings\<close>

text \<open>
  \<open>String.prototype.toLowerCase\<close> on code units below 256: the ASCII capitals and the
  Latin-1 capitals (U+00C0 to U+00DE without the multiplication sign U+00D7) move up by 32.
\<close>

definition toLowerCase_char :: "char \<Rightarrow> char" where
  "toLowerCase_char c =
     (let n = (of_char c :: nat)
      in if (65 \<le> n \<and> n \<le> 90) \<or> (192 \<le> n \<and> n \<le> 222 \<and> n \<noteq> 215)
         then char_of (n + 32) else c)"

definition toLowerCase :: "string \<Rightarrow> string" where
  "toLowerCase s = map toLowerCase_char s"

text \<open>
  The regular expression class \<open>\s\<close> on code units below 256: tab, line feed, vertical
  tab, form feed, carriage return, space and the no-break space U+00A0.
\<close>

definition is_space :: "char \<Rightarrow> bool" where
  "is_space c = (c \<in> {CHR 0x09, CHR 0x0A, CHR 0x0B, CHR 0x0C, CHR 0x0D, CHR '' '', CHR 0xA0})"

text \<open>
  \<open>.replace(/\s+/g, rep)\<close>: every maximal run of white space is replaced by \<open>rep\<close>.
\<close>

function replace_space_runs :: "string \<Rightarrow> string \<Rightarrow> string" where
  "replace_space_runs rep [] = []"
| "replace_space_runs rep (c # cs) =
     (if is_space c then rep @ replace_space_runs rep (dropWhile is_space cs)
      else c # replace_space_runs rep cs)"
  by pat_completeness auto
termination
  by (relation "measure (\<lambda>(rep, s). length s)") (auto simp: length_dropWhile_le less_Suc_eq_le)

section \<open>Numbers\<close>

text \<open>
  An ECMAScript number is an IEEE 754 double. The results of the arithmetic that the
  service does on counts, and of \<open>parseInt\<close>, are computed here exactly as the double
  arithmetic gives them: a positive rational \<open>n / d\<close> is rounded to the nearest number of
  the form \<open>m * 2 ^ e\<close> with a significand \<open>m\<close> of 53 bits, a tie going to the even
  significand.
\<close>

text \<open>The number of binary digits of a positive integer.\<close>

function bit_length :: "int \<Rightarrow> nat" where
  "bit_length n = (if n \<le> 0 then 0 else Suc (bit_length (n div 2)))"
  by pat_completeness auto
termination
  by (relation "measure nat") auto

text \<open>The integer nearest to \<open>n / d\<close>, a tie going to the even one.\<close>

definition round_half_even :: "int \<Rightarrow> int \<Rightarrow> int" where
  "round_half_even n d =
     (let q = n div d; r = n mod d
      in if d < 2 * r \<or> (2 * r = d \<and> odd q) then q + 1 else q)"

text \<open>\<open>n / (d * 2 ^ e)\<close> as a fraction, for an exponent \<open>e\<close> of either sign.\<close>

definition scaled :: "int \<Rightarrow> int \<Rightarrow> int \<Rightarrow> int \<times> int" where
  "scaled n d e = (if 0 \<le> e then (n, d * 2 ^ nat e) else (n * 2 ^ nat (- e), d))"

text \<open>
  The double nearest to \<open>n / d\<close> (for \<open>n \<ge> 0\<close> and \<open>d > 0\<close>), as a fraction again. The
  exponent \<open>e\<close> is the one that puts \<open>n / (d * 2 ^ e)\<close> between \<open>2 ^ 52\<close> and \<open>2 ^ 53\<close>; the
  bit lengths of \<open>n\<close> and \<open>d\<close> give it up to one. The range of the exponent of a double is
  not modelled here: the quotients this is used for are quotients of array lengths, and
  \<open>parseInt\<close> looks at the upper end itself.
\<close>

definition nearest_double :: "int \<Rightarrow> int \<Rightarrow> int \<times> int" where
  "nearest_double n d =
     (if n \<le> 0 then (0, 1)
      else
        let e0 = int (bit_length n) - int (bit_length d) - 53;
            e = (case scaled n d e0 of (n0, d0) \<Rightarrow> if 2 ^ 53 * d0 \<le> n0 then e0 + 1 else e0);
            m = (case scaled n d e of (n1, d1) \<Rightarrow> round_half_even n1 d1)
        in if 0 \<le> e then (m * 2 ^ nat e, 1) else (m, 2 ^ nat (- e)))"

text \<open>
  \<open>Math.round((a / b) * 100)\<close> for counts \<open>a\<close> and \<open>b\<close>: the quotient is rounded to a double,
  its product with 100 is rounded to a double, and \<open>Math.round\<close> gives the integer nearest
  to that, a half rounding up. Every call has \<open>b > 0\<close> (with \<open>b = 0\<close> the code would
  compute \<open>NaN\<close> or \<open>Infinity\<close>).
\<close>

definition round_percent :: "nat \<Rightarrow> nat \<Rightarrow> nat" where
  "round_percent a b =
     (case nearest_double (int a) (int b) of
        (n1, d1) \<Rightarrow>
          (case nearest_double (100 * n1) d1 of
             (n2, d2) \<Rightarrow> nat ((2 * n2 + d2) div (2 * d2))))"

text \<open>
  The numbers that \<open>parseInt\<close> gives for a run of digits: the integers that are doubles, and
  \<open>Infinity\<close>. In the order of the numbers \<open>Infinity\<close> is the greatest.
\<close>

datatype number = Finite int | Infinity

instantiation number :: linorder
begin

fun less_eq_number :: "number \<Rightarrow> number \<Rightarrow> bool" where
  "less_eq_number (Finite a) (Finite b) = (a \<le> b)"
| "less_eq_number (Finite a) Infinity = True"
| "less_eq_number Infinity (Finite b) = False"
| "less_eq_number Infinity Infinity = True"

definition less_number :: "number \<Rightarrow> number \<Rightarrow> bool" where
  "less_number x y = (x \<le> y \<and> \<not> y \<le> x)"

instance
proof
  fix x y z :: number
  show "(x < y) = (x \<le> y \<and> \<not> y \<le> x)" by (simp add: less_number_def)
  show "x \<le> x" by (cases x) simp_all
  show "x \<le> y \<Longrightarrow> y \<le> z \<Longrightarrow> x \<le> z" by (cases x; cases y; cases z) simp_all
  show "x \<le> y \<Longrightarrow> y \<le> x \<Longrightarrow> x = y" by (cases x; cases y) simp_all
  show "x \<le> y \<or> y \<le> x" by (cases x; cases y) auto
qed

end

section \<open>Fallback identifiers\<close>

text \<open>The character class \<open>[a-z0-9]\<close>.\<close>

definition is_lower_alnum :: "char \<Rightarrow> bool" where
  "is_lower_alnum c =
     (let n = (of_char c :: nat) in (97 \<le> n \<and> n \<le> 122) \<or> (48 \<le> n \<and> n \<le> 57))"

text \<open>
  \<open>.replace(/[^a-z0-9]+/g, '-')\<close>: scanning from the left, a character of the class is
  copied; any other character starts a match that greedily takes the whole run of
  characters outside the class, and the run is replaced by one hyphen.
\<close>

function replace_non_alnum_runs :: "string \<Rightarrow> string" where
  "replace_non_alnum_runs [] = []"
| "replace_non_alnum_runs (c # cs) =
     (if is_lower_alnum c then c # replace_non_alnum_runs cs
      else CHR ''-'' # replace_non_alnum_runs (dropWhile (\<lambda>d. \<not> is_lower_alnum d) cs))"
  by pat_completeness auto
termination
  by (relation "measure length") (auto simp: length_dropWhile_le less_Suc_eq_le)

text \<open>
  \<open>.replace(/^-|-$/g, '')\<close>: the first alternative matches a hyphen at index 0, the second
  a hyphen at the last index of what is left to scan; each is replaced by the empty string.
\<close>

definition strip_leading_hyphen :: "string \<Rightarrow> string" where
  "strip_leading_hyphen s = (case s of [] \<Rightarrow> [] | c # cs \<Rightarrow> if c = CHR ''-'' then cs else s)"

definition strip_trailing_hyphen :: "string \<Rightarrow> string" where
  "strip_trailing_hyphen s = (if s \<noteq> [] \<and> last s = CHR ''-'' then butlast s else s)"

definition strip_edge_hyphens :: "string \<Rightarrow> string" where
  "strip_edge_hyphens s = strip_trailing_hyphen (strip_leading_hyphen s)"

definition generateFallbackBestPracticeId :: "string \<Rightarrow> string" where
  "generateFallbackBestPracticeId s =
     strip_edge_hyphens (replace_non_alnum_runs (toLowerCase s))"

text \<open>Shape of a slug: its characters, and hyphens standing alone and not at an edge.\<close>

definition slug_chars :: "string \<Rightarrow> bool" where
  "slug_chars s = (\<forall>c \<in> set s. is_lower_alnum c \<or> c = CHR ''-'')"

fun hyphens_isolated :: "string \<Rightarrow> bool" where
  "hyphens_isolated [] = True"
| "hyphens_isolated [c] = True"
| "hyphens_isolated (c # d # cs) =
     ((\<not> is_lower_alnum c \<longrightarrow> is_lower_alnum d) \<and> hyphens_isolated (d # cs))"

fun adjacent_hyphens :: "string \<Rightarrow> bool" where
  "adjacent_hyphens (c # d # cs) = ((c = CHR ''-'' \<and> d = CHR ''-'') \<or> adjacent_hyphens (d # cs))"
| "adjacent_hyphens _ = False"

definition no_edge_hyphen :: "string \<Rightarrow> bool" where
  "no_edge_hyphen s = (s \<noteq> [] \<longrightarrow> hd s \<noteq> CHR ''-'' \<and> last s \<noteq> CHR ''-'')"


text \<open>
  The words of the specification: the alphanumeric characters are the digits and the
  letters of the basic Latin alphabet, and a capital letter has a lower-case form.
\<close>

definition alphanumeric :: "char \<Rightarrow> bool" where
  "alphanumeric c =
     (c \<in> set ''0123456789ABCDEFGHIJKLMNOPQRSTUVWXYZabcdefghijklmnopqrstuvwxyz'')"

definition capital :: "char \<Rightarrow> bool" where
  "capital c = (c \<in> set ''ABCDEFGHIJKLMNOPQRSTUVWXYZ'')"

text \<open>The lower-case letter stands 32 places behind its capital.\<close>

definition lower_case :: "char \<Rightarrow> char" where
  "lower_case c = (if capital c then char_of (of_char c + 32 :: nat) else c)"
section \<open>Mapping verdicts to best-practice ids\<close>

text \<open>Reading \<open>xs[i]\<close> in JavaScript: \<open>undefined\<close> past the end.\<close>

definition index_opt :: "'a list \<Rightarrow> nat \<Rightarrow> 'a option" where
  "index_opt xs i = (if i < length xs then Some (xs ! i) else None)"

text \<open>
  \<open>parseModelResponse\<close>: \<open>response.bestPractices.map((bp, index) => ...)\<close> inside a
  \<open>try\<close>; calling \<open>map\<close> on an absent property throws, and the \<open>catch\<close> rethrows with the
  fixed message.
\<close>

definition parseModelResponse ::
  "ModelResponse \<Rightarrow> QuestionGroup \<Rightarrow> string + AnalyzedPractice list" where
  "parseModelResponse response questionGroup =
     (case mr_bestPractices response of
        None \<Rightarrow> Inl ''Failed to parse analysis results''
      | Some bps \<Rightarrow>
          Inr (map (\<lambda>(index, bp).
                 \<lparr> name = name bp, applied = applied bp, reasonApplied = reasonApplied bp,
                   reasonNotApplied = reasonNotApplied bp, recommendations = recommendations bp,
                   practiceId = index_opt (bestPracticeIds questionGroup) index \<rparr>)
               (enumerate 0 bps)))"

definition demo_bp :: BestPractice where
  "demo_bp = \<lparr> name = ''Enforce encryption in transit'', applied = True,
               reasonApplied = Some ''HTTPS listener'', reasonNotApplied = None,
               recommendations = None \<rparr>"

definition demo_group :: QuestionGroup where
  "demo_group = \<lparr> pillar = ''Security'', title = ''How do you protect your data in transit?'',
                  questionId = ''q1'', bestPractices = [''Enforce encryption in transit''],
                  bestPracticeIds = [''sec_1''] \<rparr>"

section \<open>Grouping the taxonomy into question groups\<close>

text \<open>
  The \<open>Map\<close> built by \<open>retrieveBestPractices\<close> is an association list in insertion order;
  its values are the objects \<open>{ practices, questionId }\<close>, a practice being the pair of its
  name and id. \<open>Map.has\<close>, \<open>Map.set\<close> (a new key goes to the end, an old key keeps
  its place) and the \<open>push\<close> onto the \<open>practices\<close> of the entry \<open>Map.get\<close> returns:
\<close>

record group_data =
  practices :: "(string \<times> string) list"
  gd_questionId :: string

definition map_has :: "'k \<Rightarrow> ('k \<times> 'v) list \<Rightarrow> bool" where
  "map_has k m = (k \<in> set (map fst m))"

fun map_set :: "'k \<Rightarrow> 'v \<Rightarrow> ('k \<times> 'v) list \<Rightarrow> ('k \<times> 'v) list" where
  "map_set k v [] = [(k, v)]"
| "map_set k v ((k', v') # m) = (if k' = k then (k, v) # m else (k', v') # map_set k v m)"

fun push_practice ::
  "string \<Rightarrow> string \<times> string \<Rightarrow> (string \<times> group_data) list \<Rightarrow> (string \<times> group_data) list" where
  "push_practice k p [] = []"
| "push_practice k p ((k', d) # m) =
     (if k' = k then (k', d\<lparr>practices := practices d @ [p]\<rparr>) # m
      else (k', d) # push_practice k p m)"

text \<open>The body of \<open>pillarBestPractices.forEach\<close>.\<close>

definition add_best_practice ::
  "(string \<times> group_data) list \<Rightarrow> WellArchitectedBestPractice \<Rightarrow> (string \<times> group_data) list" where
  "add_best_practice questionGroups bp =
     (let questionGroups1 =
        (if \<not> map_has (Question bp) questionGroups
         then map_set (Question bp) \<lparr>practices = [], gd_questionId = wa_questionId bp\<rparr> questionGroups
         else questionGroups)
      in push_practice (Question bp) (Best_Practice bp, bestPracticeId bp) questionGroups1)"

definition pillar_slug :: "string \<Rightarrow> string" where
  "pillar_slug p = replace_space_runs ''-'' (toLowerCase p)"

text \<open>
  \<open>retrieveBestPractices\<close> on the cached taxonomy \<open>allBestPractices\<close> (what
  \<open>loadBestPractices\<close> returned). The callback of the final \<open>map\<close> reads
  \<open>pillarBestPractices[0]\<close> only when there is an entry, hence a practice of the pillar.
\<close>

definition retrieveBestPractices ::
  "WellArchitectedBestPractice list \<Rightarrow> string \<Rightarrow> QuestionGroup list" where
  "retrieveBestPractices allBestPractices pillarId =
     (let pillarBestPractices = filter (\<lambda>bp. pillar_slug (Pillar bp) = pillarId) allBestPractices;
          questionGroups = foldl add_best_practice [] pillarBestPractices
      in map (\<lambda>(question, data).
               \<lparr> pillar = Pillar (hd pillarBestPractices), title = question,
                 questionId = gd_questionId data,
                 bestPractices = map fst (practices data),
                 bestPracticeIds = map snd (practices data) \<rparr>)
             questionGroups)"

text \<open>What the grouping loop maintains, after the practices \<open>xs\<close> have been visited.\<close>

definition groups_of :: "WellArchitectedBestPractice list \<Rightarrow> (string \<times> group_data) list \<Rightarrow> bool" where
  "groups_of xs m =
     (distinct (map fst m) \<and> set (map fst m) = set (map Question xs) \<and>
      list_all (\<lambda>(q, d). practices d =
          map (\<lambda>bp. (Best_Practice bp, bestPracticeId bp)) (filter (\<lambda>bp. Question bp = q) xs)) m)"

definition demo_taxonomy :: "WellArchitectedBestPractice list" where
  "demo_taxonomy =
     [\<lparr> Pillar = ''Cost Optimization'', Question = ''Q1'', wa_questionId = ''q1'',
        Best_Practice = ''A'', bestPracticeId = ''a'' \<rparr>,
      \<lparr> Pillar = ''Security'', Question = ''Q9'', wa_questionId = ''q9'',
        Best_Practice = ''S'', bestPracticeId = ''s'' \<rparr>,
      \<lparr> Pillar = ''Cost Optimization'', Question = ''Q2'', wa_questionId = ''q2'',
        Best_Practice = ''B'', bestPracticeId = ''b'' \<rparr>,
      \<lparr> Pillar = ''Cost Optimization'', Question = ''Q1'', wa_questionId = ''q1'',
        Best_Practice = ''C'', bestPracticeId = ''c'' \<rparr>]"

section \<open>Parsing a generation response into sections\<close>

record DocumentSection =
  content :: string
  order :: number
  description :: string

record ModelSectionResponse =
  isComplete :: bool
  sections :: "DocumentSection list"

text \<open>\<open>String.prototype.includes\<close>, and \<open>replace\<close> with a string pattern (first occurrence only).\<close>

fun js_includes :: "string \<Rightarrow> string \<Rightarrow> bool" where
  "js_includes pat [] = (pat = [])"
| "js_includes pat (c # cs) = (prefix pat (c # cs) \<or> js_includes pat cs)"

fun replace_first :: "string \<Rightarrow> string \<Rightarrow> string \<Rightarrow> string" where
  "replace_first pat rep [] = (if pat = [] then rep else [])"
| "replace_first pat rep (c # cs) =
     (if prefix pat (c # cs) then rep @ drop (length pat) (c # cs)
      else c # replace_first pat rep cs)"

definition trim :: "string \<Rightarrow> string" where
  "trim s = rev (dropWhile is_space (rev (dropWhile is_space s)))"

text \<open>The classes \<open>\d\<close> and, without the \<open>s\<close> flag, the complement of \<open>.\<close> (line terminators).\<close>

definition is_digit :: "char \<Rightarrow> bool" where
  "is_digit c = (let n = (of_char c :: nat) in 48 \<le> n \<and> n \<le> 57)"

definition is_line_terminator :: "char \<Rightarrow> bool" where
  "is_line_terminator c = (c = CHR 0x0A \<or> c = CHR 0x0D)"

text \<open>
  \<open>#\s*Section\s*(\d+)\<close> matched at the start of a string: the digits and what follows them.
  The quantifiers are greedy and what comes after each cannot start inside the run it took
  (\<open>S\<close> and a digit are not white space; see \<open>lazy_len\<close> for what follows the digits), so the
  longest runs are the match.
\<close>

definition match_header :: "string \<Rightarrow> (string \<times> string) option" where
  "match_header s =
     (case s of
        [] \<Rightarrow> None
      | c # r \<Rightarrow>
          if c \<noteq> CHR ''#'' then None
          else let r1 = dropWhile is_space r in
            if \<not> prefix ''Section'' r1 then None
            else let r2 = dropWhile is_space (drop 7 r1) in
              if takeWhile is_digit r2 = [] then None
              else Some (takeWhile is_digit r2, dropWhile is_digit r2))"

text \<open>The lookahead \<open>(?=#\s*Section|\s*$)\<close>.\<close>

definition section_ahead :: "string \<Rightarrow> bool" where
  "section_ahead s =
     ((case s of [] \<Rightarrow> False
       | c # r \<Rightarrow> c = CHR ''#'' \<and> prefix ''Section'' (dropWhile is_space r))
      \<or> list_all is_space s)"

text \<open>The lazy \<open>.*?\<close> (with the \<open>s\<close> flag) in front of that lookahead: the number of characters
  it takes, the fewest after which the lookahead holds.\<close>

fun lazy_len :: "string \<Rightarrow> nat" where
  "lazy_len [] = 0"
| "lazy_len (c # cs) = (if section_ahead (c # cs) then 0 else Suc (lazy_len cs))"

text \<open>
  \<open>cleanContent.match(/#\s*Section\s*\d+.*?(?=#\s*Section|\s*$)/gs) || []\<close>: from the left,
  where the header matches the match runs to the lookahead and the scan goes on behind it;
  elsewhere the scan moves on by one character.
\<close>

function section_matches :: "string \<Rightarrow> string list" where
  "section_matches [] = []"
| "section_matches (c # cs) =
     (case match_header (c # cs) of
        None \<Rightarrow> section_matches cs
      | Some (ds, rest) \<Rightarrow>
          (let n = (length (c # cs) - length rest) + lazy_len rest
           in take n (c # cs) # section_matches (drop (n - 1) cs)))"
  by pat_completeness auto
termination
  by (relation "measure length") (auto simp: less_Suc_eq_le)

text \<open>
  \<open>parseInt\<close> of a string of decimal digits: the Number value of the integer the digits
  denote, that is the nearest double, or \<open>Infinity\<close> when that lies beyond the largest
  double (from \<open>2 ^ 1024\<close> on after rounding).
\<close>

definition digit_value :: "char \<Rightarrow> nat" where
  "digit_value c = of_char c - 48"

definition decimal :: "string \<Rightarrow> int" where
  "decimal ds = foldl (\<lambda>n d. 10 * n + int (digit_value d)) 0 ds"

definition parseInt :: "string \<Rightarrow> number" where
  "parseInt ds =
     (case nearest_double (decimal ds) 1 of
        (n, d) \<Rightarrow> if 2 ^ 1024 \<le> n div d then Infinity else Finite (n div d))"

text \<open>\<open>section.match(/^#\s*Section\s*(\d+)/)\<close>: the first group.\<close>

definition orderMatch :: "string \<Rightarrow> string option" where
  "orderMatch section = map_option fst (match_header section)"

text \<open>
  \<open>(.+?)\n\<close> at a given position: the dot does not match a line terminator, so the group is
  the run up to the first line terminator, which must be non-empty and end at a line feed.
\<close>

definition description_at :: "string \<Rightarrow> string option" where
  "description_at s =
     (let r = takeWhile (\<lambda>c. \<not> is_line_terminator c) s
      in if r \<noteq> [] \<and> prefix [CHR 0x0A] (drop (length r) s) then Some r else None)"

fun first_some :: "'a option list \<Rightarrow> 'a option" where
  "first_some [] = None"
| "first_some (None # xs) = first_some xs"
| "first_some (Some x # xs) = Some x"

text \<open>
  \<open>section.match(/^#\s*Section\s*\d+\s*-\s*(.+?)\n/)\<close>: the first group. After the hyphen the
  greedy \<open>\s*\<close> first takes the whole run of white space and gives characters back one by
  one while the group does not match.
\<close>

definition descriptionMatch :: "string \<Rightarrow> string option" where
  "descriptionMatch section =
     (case match_header section of
        None \<Rightarrow> None
      | Some (ds, rest) \<Rightarrow>
          (case dropWhile is_space rest of
             [] \<Rightarrow> None
           | c # r \<Rightarrow>
               if c \<noteq> CHR ''-'' then None
               else first_some
                      (map (\<lambda>k. description_at (drop k r))
                         (rev [0 ..< Suc (length (takeWhile is_space r))]))))"

text \<open>\<open>.replace(/^#\s*Section\s*\d+.*?\n/, '')\<close>: the header line goes when the first line
  terminator behind the header is a line feed.\<close>

definition remove_header_line :: "string \<Rightarrow> string" where
  "remove_header_line section =
     (case match_header section of
        None \<Rightarrow> section
      | Some (ds, rest) \<Rightarrow>
          (case dropWhile (\<lambda>c. \<not> is_line_terminator c) rest of
             [] \<Rightarrow> section
           | c # r \<Rightarrow> if c = CHR 0x0A then r else section))"

text \<open>\<open>.replace(/<message_truncated>\s*$/, '')\<close>.\<close>

fun remove_truncated_flag :: "string \<Rightarrow> string" where
  "remove_truncated_flag [] = []"
| "remove_truncated_flag (c # cs) =
     (if prefix ''<message_truncated>'' (c # cs)
         \<and> list_all is_space (drop (length ''<message_truncated>'') (c # cs))
      then [] else c # remove_truncated_flag cs)"

definition section_of_match :: "string \<Rightarrow> DocumentSection" where
  "section_of_match section =
     \<lparr> content = trim (remove_truncated_flag (remove_header_line section)),
       order = (case orderMatch section of Some ds \<Rightarrow> parseInt ds | None \<Rightarrow> Finite 999),
       description = (case descriptionMatch section of Some d \<Rightarrow> trim d
                      | None \<Rightarrow> ''Unnamed Section'') \<rparr>"

definition end_of_iac_document_generation :: string where
  "end_of_iac_document_generation = ''<end_of_iac_document_generation>''"

definition parseImplementationModelResponse :: "string \<Rightarrow> ModelSectionResponse" where
  "parseImplementationModelResponse text =
     (let cleanContent = trim (replace_first end_of_iac_document_generation [] text);
          sectionMatches = section_matches cleanContent
      in \<lparr> isComplete = js_includes end_of_iac_document_generation text,
           sections = map section_of_match sectionMatches \<rparr>)"

text \<open>Responses with two numbered sections, with a header that lacks its number, and with
  a header that ends the text.\<close>

definition demo_two_sections :: string where
  "demo_two_sections =
     ''# Section 1 - A'' @ [CHR 0x0A] @ ''Resources:'' @ [CHR 0x0A]
       @ ''# Section 2 - B'' @ [CHR 0x0A] @ ''Outputs: {}'' @ [CHR 0x0A]"

definition demo_unnumbered :: string where
  "demo_unnumbered =
     ''# Section - A'' @ [CHR 0x0A] @ ''body'' @ [CHR 0x0A] @ end_of_iac_document_generation"

definition demo_headers_only :: string where
  "demo_headers_only =
     ''# Section 1 - A'' @ [CHR 0x0A] @ ''# Section 2 - B'' @ [CHR 0x0A] @ end_of_iac_document_generation"

section \<open>The work item and the collaborators\<close>

datatype status = PENDING | IN_PROGRESS | PARTIAL | COMPLETED | FAILED

text \<open>
  The fields of the external work item that the service writes (\<open>lastModified\<close>, a time
  stamp, is left out), and the file type it reads.
\<close>

record WorkItem =
  wi_fileId :: string
  wi_fileType :: "string option"
  analysisStatus :: status
  analysisProgress :: nat
  analysisError :: "string option"
  analysisPartialResults :: bool
  iacGenerationStatus :: status
  iacGenerationProgress :: nat
  iacGenerationError :: "string option"
  iacPartialResults :: bool
  iacGeneratedFileType :: "string option"

record AnalysisResult =
  ar_pillar :: string
  ar_question :: string
  ar_questionId :: string
  ar_bestPractices :: "AnalyzedPractice list"

text \<open>
  What a run can change outside itself: the work item kept by the storage service, what
  \<open>storeAnalysisResults\<close> and \<open>storeIaCDocument\<close> (content, extension, template type) were
  called with, the progress events pushed to the gateway, and the number of calls made to
  the inference provider. Storage calls and event pushes are taken to succeed.
\<close>

record world =
  workItem :: WorkItem
  storedResults :: "AnalysisResult list list"
  storedDocuments :: "(string \<times> string \<times> string) list"
  analysisEvents :: "(nat \<times> nat \<times> string \<times> string) list"
  implementationEvents :: "(string \<times> nat) list"
  inferenceCalls :: nat

text \<open>How a call of an \<open>async\<close> method ends: it returns a value or throws an \<open>Error\<close> with a message.\<close>

datatype 'a outcome = Returned 'a | Raised string

text \<open>A user or file id is usable when \<open>!id\<close> is false: present and not the empty string.\<close>

definition truthy :: "string option \<Rightarrow> bool" where
  "truthy v = (case v of None \<Rightarrow> False | Some s \<Rightarrow> s \<noteq> [])"

definition updateWorkItem :: "(WorkItem \<Rightarrow> WorkItem) \<Rightarrow> world \<Rightarrow> world" where
  "updateWorkItem f w = w\<lparr>workItem := f (workItem w)\<rparr>"

definition storeIaCDocument :: "string \<Rightarrow> string \<Rightarrow> string \<Rightarrow> world \<Rightarrow> world" where
  "storeIaCDocument doc extension templateType w =
     w\<lparr>storedDocuments := storedDocuments w @ [(doc, extension, templateType)]\<rparr>"

definition storeAnalysisResults :: "AnalysisResult list \<Rightarrow> world \<Rightarrow> world" where
  "storeAnalysisResults rs w = w\<lparr>storedResults := storedResults w @ [rs]\<rparr>"

definition emitImplementationProgress :: "string \<Rightarrow> nat \<Rightarrow> world \<Rightarrow> world" where
  "emitImplementationProgress st progress w =
     w\<lparr>implementationEvents := implementationEvents w @ [(st, progress)]\<rparr>"

definition emitAnalysisProgress :: "nat \<Rightarrow> nat \<Rightarrow> string \<Rightarrow> string \<Rightarrow> world \<Rightarrow> world" where
  "emitAnalysisProgress processedQuestions totalQuestions currentPillar currentQuestion w =
     w\<lparr>analysisEvents := analysisEvents w @
        [(processedQuestions, totalQuestions, currentPillar, currentQuestion)]\<rparr>"

section \<open>Generating an IaC document\<close>

text \<open>
  What one call of \<open>invokeBedrockModelForIacGeneration\<close> does: the cancellation signal
  wins the race, the call throws (with the message of the error it wraps the cause in), or
  the model answers with a text. A run is driven by the list of what its successive calls
  will do.
\<close>

datatype invocation = Cancelled | Throws string | Answers string

record GenerationRequest =
  gr_userId :: "string option"
  gr_fileId :: string
  gr_templateType :: string
  gr_storageEnabled :: bool
  gr_fileContent :: "string + (string \<times> string)"

record GenerationResult =
  gen_content :: string
  gen_isCancelled :: bool
  gen_error :: "string option"

text \<open>
  \<open>allSections.sort((a, b) => a.order - b.order)\<close>: the array sort of ECMAScript is stable,
  and a stable sort by a key has one result, which insertion sort computes.
\<close>

definition sort_sections :: "DocumentSection list \<Rightarrow> DocumentSection list" where
  "sort_sections allSections = sort_key order allSections"

fun join :: "string \<Rightarrow> string list \<Rightarrow> string" where
  "join sep [] = []"
| "join sep [x] = x"
| "join sep (x # y # ys) = x @ sep @ join sep (y # ys)"

text \<open>\<open>sortedSections.map(section => `# ${section.description}\n${section.content}`).join('\n\n')\<close>\<close>

definition render_sections :: "DocumentSection list \<Rightarrow> string" where
  "render_sections sortedSections =
     join [CHR 0x0A, CHR 0x0A]
       (map (\<lambda>section. ''# '' @ description section @ [CHR 0x0A] @ content section) sortedSections)"

definition extension_of :: "string \<Rightarrow> string" where
  "extension_of templateType =
     (if js_includes ''yaml'' templateType then ''yaml''
      else if js_includes ''json'' templateType then ''json'' else ''tf'')"

definition cancellationNote :: string where
  "cancellationNote =
     ''# Note: Template generation was cancelled. Below is a partial version.'' @ [CHR 0x0A, CHR 0x0A]"

definition errorNote :: string where
  "errorNote =
     ''# Note: Template generation encountered an error. Below is a partial version.'' @ [CHR 0x0A, CHR 0x0A]"

text \<open>The guard \<open>this.storageEnabled && userId && fileId\<close>.\<close>

definition persists :: "GenerationRequest \<Rightarrow> bool" where
  "persists rq = (gr_storageEnabled rq \<and> truthy (gr_userId rq) \<and> gr_fileId rq \<noteq> [])"

text \<open>The branch \<open>if (response.isCancelled)\<close>.\<close>

definition on_cancelled ::
  "GenerationRequest \<Rightarrow> DocumentSection list \<Rightarrow> world \<Rightarrow> GenerationResult outcome \<times> world" where
  "on_cancelled rq allSections w =
     (let sortedSections = sort_sections allSections;
          partialContent = cancellationNote @ render_sections sortedSections;
          w1 = (if persists rq \<and> allSections \<noteq> []
                then updateWorkItem
                       (\<lambda>i. i\<lparr>iacGenerationStatus := PARTIAL,
                              iacGenerationProgress := round_percent (length allSections) 10,
                              iacGenerationError := Some ''Generation cancelled by user'',
                              iacPartialResults := True,
                              iacGeneratedFileType := Some (gr_templateType rq)\<rparr>)
                       (storeIaCDocument partialContent (extension_of (gr_templateType rq))
                          (gr_templateType rq) w)
                else w)
      in (Returned \<lparr>gen_content = partialContent, gen_isCancelled = True, gen_error = None\<rparr>, w1))"

text \<open>
  The \<open>catch\<close> inside the loop: with sections at hand (and storage on) the partial document
  is stored and returned with an error text; otherwise the error is thrown on.
\<close>

definition on_error ::
  "GenerationRequest \<Rightarrow> string \<Rightarrow> DocumentSection list \<Rightarrow> world \<Rightarrow> GenerationResult outcome \<times> world" where
  "on_error rq message allSections w =
     (if persists rq \<and> allSections \<noteq> [] then
        (let sortedSections = sort_sections allSections;
             partialContent = errorNote @ render_sections sortedSections;
             w1 = updateWorkItem
                    (\<lambda>i. i\<lparr>iacGenerationStatus := PARTIAL,
                           iacGenerationProgress := round_percent (length allSections) 10,
                           iacGenerationError := Some message,
                           iacPartialResults := True,
                           iacGeneratedFileType := Some (gr_templateType rq)\<rparr>)
                    (storeIaCDocument partialContent (extension_of (gr_templateType rq))
                       (gr_templateType rq) w)
         in (Returned \<lparr>gen_content = partialContent, gen_isCancelled = False,
                       gen_error = Some (''Template generation encountered an error. Showing partial results. Error: '' @ message)\<rparr>,
             w1))
      else (Raised message, w))"

text \<open>What follows the loop: the final document.\<close>

definition on_complete ::
  "GenerationRequest \<Rightarrow> DocumentSection list \<Rightarrow> world \<Rightarrow> GenerationResult outcome \<times> world" where
  "on_complete rq allSections w =
     (let w1 = emitImplementationProgress ''Finalizing IaC document...'' 100 w;
          sortedSections = sort_sections allSections;
          doc = render_sections sortedSections;
          w2 = (if persists rq
                then updateWorkItem
                       (\<lambda>i. i\<lparr>iacGenerationStatus := COMPLETED,
                              iacGenerationProgress := 100,
                              iacGeneratedFileType := Some (gr_templateType rq)\<rparr>)
                       (storeIaCDocument doc (extension_of (gr_templateType rq)) (gr_templateType rq) w1)
                else w1)
      in (Returned \<lparr>gen_content = doc, gen_isCancelled = False, gen_error = None\<rparr>, w2))"

text \<open>
  The start of an iteration: the progress event, the progress written to the work item
  (with storage on), and the call of the inference provider.
\<close>

definition begin_iteration :: "GenerationRequest \<Rightarrow> nat \<Rightarrow> world \<Rightarrow> world" where
  "begin_iteration rq iteration w =
     (let progress = min (iteration * 10) 90;
          w1 = emitImplementationProgress ''Generating IaC document...'' progress w;
          w2 = (if persists rq then updateWorkItem (\<lambda>i. i\<lparr>iacGenerationProgress := progress\<rparr>) w1
                else w1)
      in w2\<lparr>inferenceCalls := Suc (inferenceCalls w2)\<rparr>)"

text \<open>
  The block \<open>if (!isComplete && allSections.length > 0)\<close> after a batch without the
  sentinel: the accumulated sections are sorted in place and, with storage on, the partial
  document is stored.
\<close>

definition checkpoint_sections :: "DocumentSection list \<Rightarrow> DocumentSection list" where
  "checkpoint_sections allSections =
     (if allSections \<noteq> [] then sort_sections allSections else allSections)"

definition checkpoint :: "GenerationRequest \<Rightarrow> DocumentSection list \<Rightarrow> world \<Rightarrow> world" where
  "checkpoint rq allSections w =
     (if allSections \<noteq> [] \<and> persists rq
      then storeIaCDocument (render_sections (sort_sections allSections))
             (extension_of (gr_templateType rq)) (gr_templateType rq) w
      else w)"

text \<open>
  The loop \<open>while (!isComplete)\<close>, one iteration per invocation. It has no bound of its
  own: when the listed invocations run out before the sentinel, a cancellation or an
  error, the run has no result (\<open>None\<close>).
\<close>

fun generation_loop ::
  "GenerationRequest \<Rightarrow> invocation list \<Rightarrow> nat \<Rightarrow> DocumentSection list \<Rightarrow> world \<Rightarrow>
     (GenerationResult outcome \<times> world) option" where
  "generation_loop rq [] iteration allSections w = None"
| "generation_loop rq (Throws message # rs) iteration allSections w =
     Some (on_error rq message allSections (begin_iteration rq iteration w))"
| "generation_loop rq (Cancelled # rs) iteration allSections w =
     Some (on_cancelled rq allSections (begin_iteration rq iteration w))"
| "generation_loop rq (Answers text # rs) iteration allSections w =
     (if isComplete (parseImplementationModelResponse text)
      then Some (on_complete rq (allSections @ sections (parseImplementationModelResponse text))
                   (begin_iteration rq iteration w))
      else generation_loop rq rs (Suc iteration)
             (checkpoint_sections (allSections @ sections (parseImplementationModelResponse text)))
             (checkpoint rq (allSections @ sections (parseImplementationModelResponse text))
                (begin_iteration rq iteration w)))"

text \<open>
  \<open>generateIacDocument\<close>: the checks before the loop, the loop, and the outer \<open>catch\<close>,
  which marks the work item \<open>FAILED\<close> (given a user and a file id) and throws a fixed error.
\<close>

definition generation_failed :: "GenerationRequest \<Rightarrow> string \<Rightarrow> world \<Rightarrow> GenerationResult outcome \<times> world" where
  "generation_failed rq message w =
     (Raised ''Failed to generate IaC document'',
      if truthy (gr_userId rq) \<and> gr_fileId rq \<noteq> []
      then updateWorkItem (\<lambda>i. i\<lparr>iacGenerationStatus := FAILED, iacGenerationError := Some message\<rparr>) w
      else w)"

definition generateIacDocument ::
  "GenerationRequest \<Rightarrow> invocation list \<Rightarrow> world \<Rightarrow> (GenerationResult outcome \<times> world) option" where
  "generateIacDocument rq invocations w =
     (if \<not> truthy (gr_userId rq)
      then Some (generation_failed rq ''User ID is required for IaC generation'' w)
      else case gr_fileContent rq of
        Inl message \<Rightarrow> Some (generation_failed rq message w)
      | Inr (fileContent, fileType) \<Rightarrow>
          if \<not> prefix ''image/'' fileType
          then Some (generation_failed rq ''This operation is only supported for architecture diagrams'' w)
          else
            (case generation_loop rq invocations 0 []
                    (updateWorkItem (\<lambda>i. i\<lparr>iacGenerationStatus := IN_PROGRESS,
                                            iacGenerationProgress := 0\<rparr>) w) of
               None \<Rightarrow> None
             | Some (Raised message, w') \<Rightarrow> Some (generation_failed rq message w')
             | Some (Returned result, w') \<Rightarrow> Some (Returned result, w')))"

text \<open>The sections an invocation contributes, and those of a list of invocations in arrival order.\<close>

definition batch_sections :: "invocation \<Rightarrow> DocumentSection list" where
  "batch_sections r =
     (case r of Answers text \<Rightarrow> sections (parseImplementationModelResponse text) | _ \<Rightarrow> [])"

definition arrivals :: "invocation list \<Rightarrow> DocumentSection list" where
  "arrivals rs = concat (map batch_sections rs)"

text \<open>An invocation that answers with a text lacking the completion sentinel.\<close>

definition continues :: "invocation \<Rightarrow> bool" where
  "continues r =
     (case r of Answers text \<Rightarrow> \<not> isComplete (parseImplementationModelResponse text) | _ \<Rightarrow> False)"

definition demo_request :: GenerationRequest where
  "demo_request = \<lparr> gr_userId = Some ''u1'', gr_fileId = ''f1'',
                    gr_templateType = ''CloudFormation (.yaml) template'', gr_storageEnabled = True,
                    gr_fileContent = Inr (''data:image/png;base64,AAAA'', ''image/png'') \<rparr>"

definition demo_work_item :: WorkItem where
  "demo_work_item = \<lparr> wi_fileId = ''f1'', wi_fileType = Some ''image/png'',
      analysisStatus = COMPLETED, analysisProgress = 100, analysisError = None,
      analysisPartialResults = False, iacGenerationStatus = PENDING, iacGenerationProgress = 0,
      iacGenerationError = None, iacPartialResults = False, iacGeneratedFileType = None \<rparr>"

definition demo_world :: world where
  "demo_world = \<lparr> workItem = demo_work_item, storedResults = [], storedDocuments = [],
                  analysisEvents = [], implementationEvents = [], inferenceCalls = 0 \<rparr>"

definition demo_batch_outputs :: string where
  "demo_batch_outputs =
     ''# Section 2 - Outputs'' @ [CHR 0x0A] @ ''Outputs: {}'' @ [CHR 0x0A] @ ''<message_truncated>''"

definition demo_batch_resources :: string where
  "demo_batch_resources =
     ''# Section 1 - Resources'' @ [CHR 0x0A] @ ''Resources: {}'' @ [CHR 0x0A]
       @ ''<end_of_iac_document_generation>''"

section \<open>Detailed guidance for selected best practices\<close>

text \<open>Decimal rendering of a number in a template string.\<close>

function show_nat :: "nat \<Rightarrow> string" where
  "show_nat n = (if n < 10 then [char_of (48 + n)] else show_nat (n div 10) @ [char_of (48 + n mod 10)])"
  by pat_completeness auto
termination
  by (relation "measure id") auto

text \<open>
  \<open>cleanContent.split(/(?=# )/)\<close>, \<open>pop()\<close>, \<open>join('')\<close>: the string is cut in front of every
  \<open>"# "\<close> that is not at index 0, and the last piece is dropped; what is left is the text in
  front of the last cut, or nothing when there is no cut.
\<close>

definition drop_last_piece :: "string \<Rightarrow> string" where
  "drop_last_piece s =
     (case filter (\<lambda>p. prefix ''# '' (drop p s)) [1 ..< length s] of
        [] \<Rightarrow> []
      | p # ps \<Rightarrow> take (last (p # ps)) s)"

definition parseDetailsModelResponse :: "string \<Rightarrow> string \<times> bool" where
  "parseDetailsModelResponse text =
     (let isComplete = js_includes ''<end_of_details_generation>'' text;
          cleanContent = trim (replace_first ''<details_truncated>'' []
                                 (replace_first ''<end_of_details_generation>'' [] text))
      in (if \<not> isComplete \<and> CHR ''#'' \<in> set cleanContent then drop_last_piece cleanContent
          else cleanContent,
          isComplete))"

text \<open>
  What one call of the inference provider for details does (and reading
  \<open>response.content[0].text\<close> from what it returns): it throws, or there is a text.
\<close>

datatype reply = Fails string | Replies string

record DetailsRequest =
  dr_selectedItems :: "BestPractice list"
  dr_userId :: string
  dr_fileId :: string
  dr_originalContent :: "string + string"

record DetailsResult =
  det_content :: string
  det_error :: "string option"

text \<open>
  The loop \<open>while (!isComplete)\<close> for one item: the details gathered, or \<open>None\<close> for them when
  a call throws (the \<open>catch\<close> of the item), and the replies left; no result at all (\<open>None\<close>) when
  the replies run out before the item's sentinel.
\<close>

fun item_loop :: "reply list \<Rightarrow> string \<Rightarrow> world \<Rightarrow> (string option \<times> reply list \<times> world) option" where
  "item_loop [] itemDetails w = None"
| "item_loop (r # rs) itemDetails w =
     (let w1 = w\<lparr>inferenceCalls := Suc (inferenceCalls w)\<rparr>
      in case r of
           Fails message \<Rightarrow> Some (None, rs, w1)
         | Replies text \<Rightarrow>
             (let (content, sectionComplete) = parseDetailsModelResponse text
              in if sectionComplete then Some (Some (itemDetails @ content), rs, w1)
                 else item_loop rs (itemDetails @ content) w1))"

text \<open>The loop over the filtered items: \<open>allDetails\<close> and \<open>hasError\<close> at its end.\<close>

fun items_loop ::
  "reply list \<Rightarrow> BestPractice list \<Rightarrow> nat \<Rightarrow> nat \<Rightarrow> string \<Rightarrow> bool \<Rightarrow> world \<Rightarrow>
     (string \<times> bool \<times> world) option" where
  "items_loop rs [] i totalItems allDetails hasError w = Some (allDetails, hasError, w)"
| "items_loop rs (item # items) i totalItems allDetails hasError w =
     (case item_loop rs [] w of
        None \<Rightarrow> None
      | Some (None, rs', w1) \<Rightarrow> items_loop rs' items (Suc i) totalItems allDetails True w1
      | Some (Some itemDetails, rs', w1) \<Rightarrow>
          items_loop rs' items (Suc i) totalItems
            (allDetails @ itemDetails @ [CHR 0x0A, CHR 0x0A] @ ''---'' @ [CHR 0x0A, CHR 0x0A])
            hasError
            (emitImplementationProgress
               (''Analyzing '' @ show_nat (Suc i) @ '' of '' @ show_nat totalItems
                  @ '' selected best practices not applied - Best practice: '' @ [CHR 0x27]
                  @ name item @ [CHR 0x27])
               (round_percent (Suc i) totalItems) w1))"

text \<open>
  \<open>getMoreDetails\<close>. The stored work item gives the file type. Before the loop the first
  progress event reads \<open>filteredItems[0].name\<close>: with no filtered item that is a property
  read on \<open>undefined\<close>, a \<open>TypeError\<close>, which the outer \<open>catch\<close> throws on as it is.
\<close>

definition undefined_name_error :: string where
  "undefined_name_error =
     ''Cannot read properties of undefined (reading '' @ [CHR 0x27] @ ''name'' @ [CHR 0x27] @ '')''"

definition getMoreDetails ::
  "DetailsRequest \<Rightarrow> reply list \<Rightarrow> world \<Rightarrow> (DetailsResult outcome \<times> world) option" where
  "getMoreDetails rq replies w =
     (let filteredItems = filter (\<lambda>item. \<not> applied item) (dr_selectedItems rq)
      in if dr_selectedItems rq = [] then Some (Raised ''No items selected for detailed analysis'', w)
         else if dr_fileId rq = [] \<or> dr_userId rq = []
         then Some (Raised ''File ID and User ID are required'', w)
         else if \<not> truthy (wi_fileType (workItem w)) then Some (Raised ''No file type provided'', w)
         else case dr_originalContent rq of
           Inl message \<Rightarrow> Some (Raised message, w)
         | Inr fileContent \<Rightarrow>
            (case filteredItems of
               [] \<Rightarrow> Some (Raised undefined_name_error, w)
             | first # others \<Rightarrow>
                 (let totalItems = length filteredItems;
                      w1 = emitImplementationProgress
                             (''Analyzing 1 of '' @ show_nat totalItems
                                @ '' selected best practices not applied - Best practice: ''
                                @ [CHR 0x27] @ name first @ [CHR 0x27]) 0 w
                  in case items_loop replies filteredItems 0 totalItems [] False w1 of
                       None \<Rightarrow> None
                     | Some (allDetails, hasError, w2) \<Rightarrow>
                         (let w3 = emitImplementationProgress ''Analysis complete'' 100 w2
                          in if allDetails \<noteq> [] \<and> hasError
                             then Some (Returned \<lparr>det_content = allDetails,
                                    det_error = Some ''Some items could not be analyzed. Showing partial results.''\<rparr>, w3)
                             else if allDetails = []
                             then Some (Raised ''Failed to generate any detailed analysis'', w3)
                             else Some (Returned \<lparr>det_content = trim allDetails, det_error = None\<rparr>, w3)))))"

definition demo_details_request :: DetailsRequest where
  "demo_details_request =
     \<lparr> dr_selectedItems = [demo_bp, demo_bp], dr_userId = ''u1'', dr_fileId = ''f1'',
       dr_originalContent = Inr ''Resources: {}'' \<rparr>"

section \<open>The analysis run\<close>

text \<open>
  What the collaborators do at the question the run reaches after \<open>n\<close> questions have been
  processed: the knowledge base retrieval throws (the text is the error as a template
  string renders it); the inference call throws (with the message of the error it wraps
  the cause in); or the model's answer parses to a response.
\<close>

datatype question_events =
    KnowledgeBaseFails string
  | InferenceFails string
  | InferenceAnswers ModelResponse

text \<open>
  What \<open>getWorkItem\<close> resolves to: the item, or one of the two values without properties.
  Both are falsy, and \<open>workItem?.fileId\<close> is \<open>undefined\<close> for both; reading a property of
  them without the guard throws a \<open>TypeError\<close> whose text names the value.
\<close>

datatype 'a nullable = Undefined | Null | Present 'a

fun present :: "'a nullable \<Rightarrow> bool" where
  "present (Present x) = True"
| "present _ = False"

fun optional_fileId :: "WorkItem nullable \<Rightarrow> string option" where
  "optional_fileId (Present i) = Some (wi_fileId i)"
| "optional_fileId _ = None"

text \<open>
  The request and what the run is given from outside: what \<open>getFileContent\<close> does (throws, or
  content and type), what \<open>getWorkItem\<close> returns, what \<open>loadBestPractices\<close> does, what
  happens at each question, and during which questions \<open>cancelAnalysis\<close> is called:
  \<open>aq_cancelRequested rq n\<close> says that it is called while the question reached after \<open>n\<close>
  processed questions is in progress.
\<close>

record AnalysisRequest =
  aq_fileId :: string
  aq_selectedPillars :: "string list"
  aq_userId :: "string option"
  aq_fileContent :: "string + (string \<times> string)"
  aq_workItem :: "WorkItem nullable"
  aq_bestPractices :: "string + WellArchitectedBestPractice list"
  aq_events :: "nat \<Rightarrow> question_events"
  aq_cancelRequested :: "nat \<Rightarrow> bool"

record AnalysisReturn =
  an_results :: "AnalysisResult list"
  an_isCancelled :: bool
  an_error :: "string option"
  an_fileId :: "string option"

text \<open>\<open>analyzeQuestion\<close>, given what the inference call does.\<close>

definition analyzeQuestion ::
  "string \<Rightarrow> string \<Rightarrow> QuestionGroup \<Rightarrow> string + ModelResponse \<Rightarrow> string + AnalysisResult" where
  "analyzeQuestion fileContent fileType question inference =
     (if prefix ''image/'' fileType \<and> \<not> prefix ''data:'' fileContent
      then Inl ''Invalid image content format''
      else case inference of
        Inl message \<Rightarrow> Inl message
      | Inr response \<Rightarrow>
          (case parseModelResponse response question of
             Inl message \<Rightarrow> Inl message
           | Inr bps \<Rightarrow>
               Inr \<lparr> ar_pillar = pillar question, ar_question = title question,
                     ar_questionId = questionId question, ar_bestPractices = bps \<rparr>))"

text \<open>
  The block \<open>if (workItem && results.length > 0) { storeAnalysisResults; updateWorkItem
  PARTIAL }\<close> of the exits inside the loop, with its progress and error text.
\<close>

definition store_partial ::
  "WorkItem nullable \<Rightarrow> AnalysisResult list \<Rightarrow> nat \<Rightarrow> string \<Rightarrow> world \<Rightarrow> world" where
  "store_partial item results progress message w =
     (if present item \<and> results \<noteq> []
      then updateWorkItem
             (\<lambda>i. i\<lparr>analysisStatus := PARTIAL, analysisProgress := progress,
                    analysisError := Some message, analysisPartialResults := True\<rparr>)
             (storeAnalysisResults results w)
      else w)"

definition question_error :: "string \<Rightarrow> QuestionGroup \<Rightarrow> nat \<Rightarrow> nat \<Rightarrow> string" where
  "question_error message question processedQuestions totalQuestions =
     ''Error: '' @ message @ ''. Error analyzing question '' @ [CHR 0x22] @ pillar question @ '' - ''
       @ title question @ [CHR 0x22] @ ''. Analysis stopped, '' @ show_nat processedQuestions
       @ '' questions where analyzed out of '' @ show_nat totalQuestions @ ''.''"

text \<open>
  The check \<open>await Promise.race([cancelPromise, Promise.resolve(false)])\<close> in front of a
  question. \<open>cancelPromise\<close> resolves when \<open>cancelAnalysis$\<close> emits after the subscription,
  and the subscription is made right in front of the loop, with no \<open>await\<close> between it
  and the first check: the check finds a cancellation when \<open>cancelAnalysis\<close> was called
  while one of the questions before this one was in progress, so never at the first.
\<close>

definition isCancelled :: "AnalysisRequest \<Rightarrow> nat \<Rightarrow> bool" where
  "isCancelled rq processedQuestions = list_ex (aq_cancelRequested rq) [0 ..< processedQuestions]"

text \<open>
  The body of the loop over the questions of a pillar: the run returns (left), or goes on
  with the results, the count of processed questions and the world (right).
\<close>

definition process_question ::
  "AnalysisRequest \<Rightarrow> string \<Rightarrow> string \<Rightarrow> nat \<Rightarrow> string \<Rightarrow> QuestionGroup \<Rightarrow>
   AnalysisResult list \<Rightarrow> nat \<Rightarrow> world \<Rightarrow>
     (AnalysisReturn outcome \<times> world) + (AnalysisResult list \<times> nat \<times> world)" where
  "process_question rq fileContent fileType totalQuestions pillarName question results processedQuestions w =
     (let item = aq_workItem rq;
          progress = round_percent processedQuestions totalQuestions;
          inferred = (\<lambda>inference.
            (let w1 = emitAnalysisProgress processedQuestions totalQuestions pillarName (title question) w
             in case analyzeQuestion fileContent fileType question inference of
                  Inl message \<Rightarrow>
                    (let err = question_error message question processedQuestions totalQuestions
                     in Inl (Returned \<lparr> an_results = results, an_isCancelled = False,
                                        an_error = Some err,
                                        an_fileId = optional_fileId item \<rparr>,
                             store_partial item results progress err w1))
                | Inr analysis \<Rightarrow>
                    (let w2 = (if present item
                               then updateWorkItem (\<lambda>i. i\<lparr>analysisProgress := progress\<rparr>) w1
                               else w1)
                     in Inr (results @ [analysis], Suc processedQuestions,
                             emitAnalysisProgress (Suc processedQuestions) totalQuestions pillarName
                               (title question) w2))))
      in if isCancelled rq processedQuestions
         then Inl (Returned \<lparr> an_results = results, an_isCancelled = True, an_error = None,
                              an_fileId = optional_fileId item \<rparr>,
                   emitAnalysisProgress processedQuestions totalQuestions pillarName ''Analysis cancelled''
                     (store_partial item results progress ''Analysis cancelled by user.'' w))
         else case aq_events rq processedQuestions of
           KnowledgeBaseFails err \<Rightarrow>
             Inl (Returned \<lparr> an_results = results, an_isCancelled = False,
                             an_error = Some (''Error retrieving from knowledge base. Analysis stopped. '' @ err),
                             an_fileId = optional_fileId item \<rparr>,
                  store_partial item results progress (''Error retrieving from knowledge base: '' @ err) w)
         | InferenceFails message \<Rightarrow> inferred (Inl message)
         | InferenceAnswers response \<Rightarrow> inferred (Inr response))"

fun question_loop ::
  "AnalysisRequest \<Rightarrow> string \<Rightarrow> string \<Rightarrow> nat \<Rightarrow> string \<Rightarrow> QuestionGroup list \<Rightarrow>
   AnalysisResult list \<Rightarrow> nat \<Rightarrow> world \<Rightarrow>
     (AnalysisReturn outcome \<times> world) + (AnalysisResult list \<times> nat \<times> world)" where
  "question_loop rq fileContent fileType totalQuestions pillarName [] results processedQuestions w =
     Inr (results, processedQuestions, w)"
| "question_loop rq fileContent fileType totalQuestions pillarName (question # questionGroups)
     results processedQuestions w =
     (case process_question rq fileContent fileType totalQuestions pillarName question results
             processedQuestions w of
        Inl exit \<Rightarrow> Inl exit
      | Inr (results1, processed1, w1) \<Rightarrow>
          question_loop rq fileContent fileType totalQuestions pillarName questionGroups
            results1 processed1 w1)"

fun pillar_loop ::
  "AnalysisRequest \<Rightarrow> string \<Rightarrow> string \<Rightarrow> nat \<Rightarrow> (string \<times> QuestionGroup list) list \<Rightarrow>
   AnalysisResult list \<Rightarrow> nat \<Rightarrow> world \<Rightarrow>
     (AnalysisReturn outcome \<times> world) + (AnalysisResult list \<times> nat \<times> world)" where
  "pillar_loop rq fileContent fileType totalQuestions [] results processedQuestions w =
     Inr (results, processedQuestions, w)"
| "pillar_loop rq fileContent fileType totalQuestions ((pillarName, questionGroups) # pillars)
     results processedQuestions w =
     (case question_loop rq fileContent fileType totalQuestions pillarName questionGroups results
             processedQuestions w of
        Inl exit \<Rightarrow> Inl exit
      | Inr (results1, processed1, w1) \<Rightarrow>
          pillar_loop rq fileContent fileType totalQuestions pillars results1 processed1 w1)"

text \<open>
  The outer \<open>catch\<close>: with a work item and results it stores them and marks the item
  \<open>PARTIAL\<close>; it always throws the error on.
\<close>

definition rethrow ::
  "WorkItem nullable \<Rightarrow> AnalysisResult list \<Rightarrow> string \<Rightarrow> world \<Rightarrow> AnalysisReturn outcome \<times> world" where
  "rethrow item results message w =
     (Raised message,
      if present item \<and> results \<noteq> []
      then updateWorkItem
             (\<lambda>i. i\<lparr>analysisStatus := PARTIAL, analysisError := Some message,
                    analysisPartialResults := True\<rparr>)
             (storeAnalysisResults results w)
      else w)"

text \<open>The message of the \<open>TypeError\<close> for \<open>workItem.fileId\<close> on \<open>undefined\<close> and on \<open>null\<close>.\<close>

definition fileId_type_error :: "string \<Rightarrow> string" where
  "fileId_type_error v =
     ''Cannot read properties of '' @ v @ '' (reading '' @ [CHR 0x27] @ ''fileId'' @ [CHR 0x27] @ '')''"

text \<open>
  \<open>analyze\<close>. The variable \<open>workItem\<close> is still unset (\<open>undefined\<close>) when the user id is
  missing or the file content cannot be fetched. The question groups of all pillars are computed before the
  loop from the loaded taxonomy. The final \<open>return\<close> reads \<open>workItem.fileId\<close> without a
  guard.
\<close>

definition analyze :: "AnalysisRequest \<Rightarrow> world \<Rightarrow> AnalysisReturn outcome \<times> world" where
  "analyze rq w =
     (if \<not> truthy (aq_userId rq) then rethrow Undefined [] ''User ID is required for analysis'' w
      else case aq_fileContent rq of
        Inl message \<Rightarrow> rethrow Undefined [] message w
      | Inr (fileContent, fileType) \<Rightarrow>
          (let item = aq_workItem rq;
               w1 = updateWorkItem (\<lambda>i. i\<lparr>analysisStatus := IN_PROGRESS, analysisProgress := 0\<rparr>) w
           in case aq_bestPractices rq of
                Inl message \<Rightarrow> rethrow item [] message w1
              | Inr allBestPractices \<Rightarrow>
                  (let pillarQuestionGroups =
                         map (retrieveBestPractices allBestPractices) (aq_selectedPillars rq);
                       totalQuestions = sum_list (map length pillarQuestionGroups)
                   in case pillar_loop rq fileContent fileType totalQuestions
                             (zip (aq_selectedPillars rq) pillarQuestionGroups) [] 0 w1 of
                        Inl exit \<Rightarrow> exit
                      | Inr (results, processedQuestions, w2) \<Rightarrow>
                          (case item of
                             Undefined \<Rightarrow> rethrow item results (fileId_type_error ''undefined'') w2
                           | Null \<Rightarrow> rethrow item results (fileId_type_error ''null'') w2
                           | Present i \<Rightarrow>
                               (Returned \<lparr> an_results = results, an_isCancelled = False,
                                           an_error = None, an_fileId = Some (wi_fileId i) \<rparr>,
                                updateWorkItem
                                  (\<lambda>i. i\<lparr>analysisStatus := COMPLETED, analysisProgress := 100\<rparr>)
                                  (storeAnalysisResults results w2))))))"

text \<open>The two loops as one loop over the questions paired with the pillar they are visited under.\<close>

fun flat_loop ::
  "AnalysisRequest \<Rightarrow> string \<Rightarrow> string \<Rightarrow> nat \<Rightarrow> (string \<times> QuestionGroup) list \<Rightarrow>
   AnalysisResult list \<Rightarrow> nat \<Rightarrow> world \<Rightarrow>
     (AnalysisReturn outcome \<times> world) + (AnalysisResult list \<times> nat \<times> world)" where
  "flat_loop rq fileContent fileType totalQuestions [] results processedQuestions w =
     Inr (results, processedQuestions, w)"
| "flat_loop rq fileContent fileType totalQuestions ((pillarName, question) # rest)
     results processedQuestions w =
     (case process_question rq fileContent fileType totalQuestions pillarName question results
             processedQuestions w of
        Inl exit \<Rightarrow> Inl exit
      | Inr (results1, processed1, w1) \<Rightarrow>
          flat_loop rq fileContent fileType totalQuestions rest results1 processed1 w1)"

definition visits :: "(string \<times> QuestionGroup list) list \<Rightarrow> (string \<times> QuestionGroup) list" where
  "visits pillars = concat (map (\<lambda>(pillarName, questionGroups). map (Pair pillarName) questionGroups) pillars)"

text \<open>A taxonomy of five questions in two pillars, and runs over it.\<close>

definition five_questions :: "WellArchitectedBestPractice list" where
  "five_questions =
     map (\<lambda>(p, q, b). \<lparr> Pillar = p, Question = q, wa_questionId = generateFallbackBestPracticeId q,
                         Best_Practice = b, bestPracticeId = generateFallbackBestPracticeId b \<rparr>)
       [(''Security'', ''SEC 1'', ''Use accounts''),
        (''Security'', ''SEC 2'', ''Use strong sign-in''),
        (''Reliability'', ''REL 1'', ''Know quotas''),
        (''Reliability'', ''REL 2'', ''Use redundant links''),
        (''Reliability'', ''REL 3'', ''Segment workload'')]"

definition demo_question :: "string \<Rightarrow> string \<Rightarrow> string \<Rightarrow> string \<Rightarrow> string \<Rightarrow> QuestionGroup" where
  "demo_question p q qid b bid =
     \<lparr> pillar = p, title = q, questionId = qid, bestPractices = [b], bestPracticeIds = [bid] \<rparr>"

definition demo_response :: ModelResponse where
  "demo_response = \<lparr> mr_bestPractices = Some [demo_bp] \<rparr>"

definition demo_analysis :: "(nat \<Rightarrow> question_events) \<Rightarrow> AnalysisRequest" where
  "demo_analysis events =
     \<lparr> aq_fileId = ''f1'', aq_selectedPillars = [''security'', ''reliability''],
       aq_userId = Some ''u1'', aq_fileContent = Inr (''Resources: {}'', ''text/yaml''),
       aq_workItem = Present demo_work_item, aq_bestPractices = Inr five_questions,
       aq_events = events, aq_cancelRequested = (\<lambda>n. False) \<rparr>"

definition third_fails :: "nat \<Rightarrow> question_events" where
  "third_fails n = (if n = 2 then InferenceFails ''Throttled'' else InferenceAnswers demo_response)"

definition first_fails :: "nat \<Rightarrow> question_events" where
  "first_fails n = (if n = 0 then InferenceFails ''Throttled'' else InferenceAnswers demo_response)"

section \<open>Cleaning the JSON text of a response\<close>

text \<open>\<open>indexOf\<close> and \<open>lastIndexOf\<close> of a character (\<open>None\<close> for \<open>-1\<close>), and \<open>substring\<close>, which
  swaps its arguments when the first is the larger and stops at the end of the string.\<close>

definition index_of :: "char \<Rightarrow> string \<Rightarrow> nat option" where
  "index_of c s = (if c \<in> set s then Some (length (takeWhile (\<lambda>x. x \<noteq> c) s)) else None)"

definition last_index_of :: "char \<Rightarrow> string \<Rightarrow> nat option" where
  "last_index_of c s =
     (if c \<in> set s then Some (length s - Suc (length (takeWhile (\<lambda>x. x \<noteq> c) (rev s)))) else None)"

definition substring :: "nat \<Rightarrow> nat \<Rightarrow> string \<Rightarrow> string" where
  "substring a b s = take (max a b - min a b) (drop (min a b) s)"

text \<open>The first step: everything outside the outermost curly braces goes, when there are both.\<close>

definition trim_to_braces :: "string \<Rightarrow> string" where
  "trim_to_braces jsonString =
     (case (index_of CHR ''{'' jsonString, last_index_of CHR ''}'' jsonString) of
        (Some firstCurlyBrace, Some lastCurlyBrace) \<Rightarrow>
          substring firstCurlyBrace (Suc lastCurlyBrace) jsonString
      | _ \<Rightarrow> jsonString)"

text \<open>
  \<open>.replace(/t\s+/g, "t")\<close> for a character \<open>t\<close>, and with \<open>guarded\<close> the form
  \<open>.replace(/(?<!")t\s+/g, "t")\<close>: where \<open>t\<close> stands in front of white space (and, when
  guarded, not behind a double quote) the whole run of white space behind it goes. \<open>prev\<close>
  is the character in front of the scan position in the string being scanned, which is
  what the lookbehind reads.
\<close>

function remove_space_after :: "bool \<Rightarrow> char \<Rightarrow> char option \<Rightarrow> string \<Rightarrow> string" where
  "remove_space_after guarded t prev [] = []"
| "remove_space_after guarded t prev (c # cs) =
     (if c = t \<and> \<not> (guarded \<and> prev = Some (CHR 0x22)) \<and> takeWhile is_space cs \<noteq> []
      then t # remove_space_after guarded t (Some (last (takeWhile is_space cs))) (dropWhile is_space cs)
      else c # remove_space_after guarded t (Some c) cs)"
  by pat_completeness auto
termination
  by (relation "measure (\<lambda>(g, t, p, s). length s)") (auto simp: length_dropWhile_le less_Suc_eq_le)

text \<open>
  \<open>.replace(/\s+t/g, "t")\<close>: a run of white space goes when \<open>t\<close> stands right behind the
  whole run; the scan goes on behind that \<open>t\<close>.
\<close>

function remove_space_before :: "char \<Rightarrow> string \<Rightarrow> string" where
  "remove_space_before t [] = []"
| "remove_space_before t (c # cs) =
     (if is_space c \<and> (case dropWhile is_space cs of [] \<Rightarrow> False | d # ds \<Rightarrow> d = t)
      then t # remove_space_before t (tl (dropWhile is_space cs))
      else c # remove_space_before t cs)"
  by pat_completeness auto
termination
proof (relation "measure (\<lambda>(t, s). length s)")
  fix t :: char and c :: char and cs :: string
  have "length (tl (dropWhile is_space cs)) \<le> length (dropWhile is_space cs)"
    by simp
  also have "\<dots> \<le> length cs"
    by (rule length_dropWhile_le)
  finally have "length (tl (dropWhile is_space cs)) \<le> length cs" .
  then show "((t, tl (dropWhile is_space cs)), (t, c # cs)) \<in> measure (\<lambda>(t, s). length s)"
    by simp
qed auto

text \<open>\<open>.replace(/pat/g, rep)\<close> for a pattern of literal characters.\<close>

function replace_all :: "string \<Rightarrow> string \<Rightarrow> string \<Rightarrow> string" where
  "replace_all pat rep [] = []"
| "replace_all pat rep (c # cs) =
     (if pat \<noteq> [] \<and> prefix pat (c # cs)
      then rep @ replace_all pat rep (drop (length pat - 1) cs)
      else c # replace_all pat rep cs)"
  by pat_completeness auto
termination
  by (relation "measure (\<lambda>(p, r, s). length s)") (auto simp: less_Suc_eq_le)

definition cleanJsonString :: "string \<Rightarrow> string" where
  "cleanJsonString jsonString =
     (let s1 = trim_to_braces jsonString;
          s2 = replace_space_runs '' '' s1;
          s3 = remove_space_after True CHR '':'' None s2;
          s4 = remove_space_before CHR '':'' s3;
          s5 = remove_space_after True CHR '','' None s4;
          s6 = remove_space_before CHR '','' s5;
          s7 = remove_space_after False CHR ''{'' None s6;
          s8 = remove_space_before CHR ''}'' s7;
          s9 = remove_space_after False CHR ''['' None s8;
          s10 = remove_space_before CHR '']'' s9;
          s11 = replace_all '': True'' '': true'' s10
      in replace_all '': False'' '': false'' s11)"

text \<open>
  Shapes on the way to a cleaned string. A string is tight when its white space is single
  spaces, each followed by something else or by the end.
\<close>

fun tight :: "string \<Rightarrow> bool" where
  "tight [] = True"
| "tight (c # cs) =
     ((is_space c \<longrightarrow> c = CHR '' '' \<and> (case cs of [] \<Rightarrow> True | d # ds \<Rightarrow> \<not> is_space d)) \<and> tight cs)"

text \<open>No white space stands right in front of \<open>t\<close>.\<close>

fun no_space_before :: "char \<Rightarrow> string \<Rightarrow> bool" where
  "no_space_before t (c # d # cs) = (\<not> (is_space c \<and> d = t) \<and> no_space_before t (d # cs))"
| "no_space_before t _ = True"

text \<open>
  No white space stands right behind \<open>t\<close>; when guarded, unless that \<open>t\<close> stands right behind
  a double quote. \<open>prev\<close> is the character in front of the string.
\<close>

fun no_space_after :: "bool \<Rightarrow> char \<Rightarrow> char option \<Rightarrow> string \<Rightarrow> bool" where
  "no_space_after guarded t prev (c # d # cs) =
     ((c = t \<and> is_space d \<longrightarrow> guarded \<and> prev = Some (CHR 0x22)) \<and>
      no_space_after guarded t (Some c) (d # cs))"
| "no_space_after guarded t prev _ = True"

text \<open>\<open>deletes s s'\<close>: \<open>s'\<close> is \<open>s\<close> without some of its white space characters.\<close>

inductive deletes :: "string \<Rightarrow> string \<Rightarrow> bool" where
  deletes_Nil: "deletes [] []"
| deletes_keep: "deletes s s' \<Longrightarrow> deletes (c # s) (c # s')"
| deletes_drop: "is_space c \<Longrightarrow> deletes s s' \<Longrightarrow> deletes (c # s) s'"

text \<open>
  Characters that no step looks for: neither white space nor one of \<open>: , { } [ ] "\<close>.
  Two strings have the same shape when they agree up to such characters.
\<close>

definition plain :: "char \<Rightarrow> bool" where
  "plain c = (\<not> is_space c \<and> c \<notin> set ('':,{}[]'' @ [CHR 0x22]))"

definition same_shape :: "string \<Rightarrow> string \<Rightarrow> bool" where
  "same_shape s s' = list_all2 (\<lambda>a b. a = b \<or> (plain a \<and> plain b)) s s'"

text \<open>The string is free of one of the curly braces, or begins with \<open>{\<close> and ends with \<open>}\<close>.\<close>

definition braced :: "string \<Rightarrow> bool" where
  "braced s = (CHR ''{'' \<notin> set s \<or> CHR ''}'' \<notin> set s \<or>
               (s \<noteq> [] \<and> hd s = CHR ''{'' \<and> last s = CHR ''}''))"


text \<open>A string that no step of the cleanup changes any more.\<close>

definition cleaned :: "string \<Rightarrow> bool" where
  "cleaned r =
     (braced r \<and> tight r \<and>
      no_space_after True CHR '':'' None r \<and> no_space_before CHR '':'' r \<and>
      no_space_after True CHR '','' None r \<and> no_space_before CHR '','' r \<and>
      no_space_after False CHR ''{'' None r \<and> no_space_before CHR ''}'' r \<and>
      no_space_after False CHR ''['' None r \<and> no_space_before CHR '']'' r \<and>
      \<not> js_includes '': True'' r \<and> \<not> js_includes '': False'' r)"

text \<open>A key or string value of JSON text: the characters between double quotes.\<close>

definition quoted :: "string \<Rightarrow> string" where
  "quoted s = CHR 0x22 # s @ [CHR 0x22]"

text \<open>
  A reply as a model gives it: prose around the object, blanks around the punctuation, and
  a capitalized truth value.
\<close>

definition demo_json :: string where
  "demo_json = ''Here you go: { '' @ quoted ''bestPractices'' @ '' : [ { '' @ quoted ''name'' @ '': ''
     @ quoted ''Use MFA'' @ '' , '' @ quoted ''applied'' @ '': True } ] } thanks''"

definition demo_json_cleaned :: string where
  "demo_json_cleaned = ''{'' @ quoted ''bestPractices'' @ '':[{'' @ quoted ''name'' @ '': ''
     @ quoted ''Use MFA'' @ '','' @ quoted ''applied'' @ '': true}]}''"
section \<open>Numbers: checks\<close>

text \<open>
  The rounding of the double arithmetic shows: 23 of 40 is 57 percent (the quotient is
  rounded below 0.575), and sixteen digits are read as the nearest double.
\<close>

lemma round_percent_checks:
  "round_percent 2 5 = 40" "round_percent 23 40 = 57" "round_percent 3 10 = 30"
  "round_percent 5 5 = 100" "round_percent 0 5 = 0"
  by code_simp+

lemma parseInt_checks:
  "parseInt ''1'' = Finite 1" "parseInt ''007'' = Finite 7"
  "parseInt ''9007199254740993'' = Finite 9007199254740992"
  by code_simp+

section \<open>Fallback identifiers: proofs\<close>

lemma hyphen_not_alnum [simp]: "\<not> is_lower_alnum CHR ''-''"
  by (simp add: is_lower_alnum_def)

lemma toLowerCase_char_fixed:
  "is_lower_alnum c \<or> c = CHR ''-'' \<Longrightarrow> toLowerCase_char c = c"
  by (auto simp: is_lower_alnum_def toLowerCase_char_def Let_def)

lemma toLowerCase_fixed: "slug_chars s \<Longrightarrow> toLowerCase s = s"
  by (simp add: slug_chars_def toLowerCase_def toLowerCase_char_fixed map_idI)

lemma replace_runs_chars: "slug_chars (replace_non_alnum_runs s)"
  by (induction s rule: replace_non_alnum_runs.induct) (auto simp: slug_chars_def)

lemma replace_runs_head:
  "replace_non_alnum_runs s = c # r \<Longrightarrow> s \<noteq> [] \<and> (is_lower_alnum c \<longleftrightarrow> is_lower_alnum (hd s))"
  by (cases s) (auto split: if_splits)

lemma dropWhile_head_alnum:
  "dropWhile (\<lambda>d. \<not> is_lower_alnum d) cs = d # ds \<Longrightarrow> is_lower_alnum d"
  using hd_dropWhile [of "\<lambda>d. \<not> is_lower_alnum d" cs] by auto

lemma replace_runs_isolated: "hyphens_isolated (replace_non_alnum_runs s)"
proof (induction s rule: replace_non_alnum_runs.induct)
  case 1
  show ?case by simp
next
  case (2 c cs)
  show ?case
  proof (cases "is_lower_alnum c")
    case True
    with 2 show ?thesis
      by (cases "replace_non_alnum_runs cs") auto
  next
    case False
    let ?r = "dropWhile (\<lambda>d. \<not> is_lower_alnum d) cs"
    from False 2 have ih: "hyphens_isolated (replace_non_alnum_runs ?r)" by simp
    show ?thesis
    proof (cases "replace_non_alnum_runs ?r")
      case Nil
      with False show ?thesis by simp
    next
      case (Cons e es)
      with replace_runs_head [OF Cons] have "is_lower_alnum e"
        by (cases ?r) (auto dest: dropWhile_head_alnum)
      with False Cons ih show ?thesis by simp
    qed
  qed
qed

lemma replace_runs_fixed:
  "slug_chars s \<Longrightarrow> hyphens_isolated s \<Longrightarrow> replace_non_alnum_runs s = s"
proof (induction s rule: hyphens_isolated.induct)
  case 1
  show ?case by simp
next
  case (2 c)
  then show ?case by (auto simp: slug_chars_def)
next
  case (3 c d cs)
  then show ?case by (auto simp: slug_chars_def)
qed

lemma replace_runs_filter:
  "filter is_lower_alnum (replace_non_alnum_runs s) = filter is_lower_alnum s"
proof (induction s rule: replace_non_alnum_runs.induct)
  case 1
  show ?case by simp
next
  case (2 c cs)
  have "filter is_lower_alnum (dropWhile (\<lambda>d. \<not> is_lower_alnum d) cs) = filter is_lower_alnum cs"
    by (induction cs) auto
  with 2 show ?case by auto
qed

lemma strip_fixed: "no_edge_hyphen s \<Longrightarrow> strip_edge_hyphens s = s"
  by (cases s)
    (auto simp: strip_edge_hyphens_def strip_leading_hyphen_def strip_trailing_hyphen_def
      no_edge_hyphen_def)

lemma isolated_tl: "hyphens_isolated s \<Longrightarrow> hyphens_isolated (tl s)"
  by (induction s rule: hyphens_isolated.induct) auto

lemma isolated_butlast: "hyphens_isolated s \<Longrightarrow> hyphens_isolated (butlast s)"
  by (induction s rule: hyphens_isolated.induct) (auto split: if_splits)

lemma isolated_last:
  "hyphens_isolated s \<Longrightarrow> s \<noteq> [] \<Longrightarrow> \<not> is_lower_alnum (last s) \<Longrightarrow> butlast s \<noteq> [] \<Longrightarrow>
   is_lower_alnum (last (butlast s))"
  by (induction s rule: hyphens_isolated.induct) (auto split: if_splits)

lemma strip_leading_chars: "slug_chars s \<Longrightarrow> slug_chars (strip_leading_hyphen s)"
  by (cases s) (auto simp: strip_leading_hyphen_def slug_chars_def)

lemma strip_trailing_chars: "slug_chars s \<Longrightarrow> slug_chars (strip_trailing_hyphen s)"
  by (auto simp: strip_trailing_hyphen_def slug_chars_def dest: in_set_butlastD)

lemma strip_chars: "slug_chars s \<Longrightarrow> slug_chars (strip_edge_hyphens s)"
  by (simp add: strip_edge_hyphens_def strip_leading_chars strip_trailing_chars)

lemma strip_leading_isolated: "hyphens_isolated s \<Longrightarrow> hyphens_isolated (strip_leading_hyphen s)"
  using isolated_tl [of s] by (cases s) (auto simp: strip_leading_hyphen_def)

lemma strip_trailing_isolated: "hyphens_isolated s \<Longrightarrow> hyphens_isolated (strip_trailing_hyphen s)"
  by (simp add: strip_trailing_hyphen_def isolated_butlast)

lemma strip_isolated: "hyphens_isolated s \<Longrightarrow> hyphens_isolated (strip_edge_hyphens s)"
  by (simp add: strip_edge_hyphens_def strip_leading_isolated strip_trailing_isolated)

lemma hd_butlast: "butlast s \<noteq> [] \<Longrightarrow> hd (butlast s) = hd s"
  by (cases s) (auto split: if_splits)

lemma strip_leading_head:
  "hyphens_isolated s \<Longrightarrow> strip_leading_hyphen s \<noteq> [] \<Longrightarrow> hd (strip_leading_hyphen s) \<noteq> CHR ''-''"
  by (induction s rule: hyphens_isolated.induct) (auto simp: strip_leading_hyphen_def)

lemma strip_trailing_no_edge:
  assumes "hyphens_isolated s" and "s \<noteq> [] \<longrightarrow> hd s \<noteq> CHR ''-''"
  shows "no_edge_hyphen (strip_trailing_hyphen s)"
proof (cases "s \<noteq> [] \<and> last s = CHR ''-''")
  case True
  have "last (butlast s) \<noteq> CHR ''-''" if "butlast s \<noteq> []"
    using isolated_last [OF assms(1)] True that by auto
  with True assms(2) show ?thesis
    by (auto simp: no_edge_hyphen_def strip_trailing_hyphen_def hd_butlast)
next
  case False
  with assms(2) show ?thesis
    by (auto simp: no_edge_hyphen_def strip_trailing_hyphen_def)
qed

lemma strip_no_edge:
  "hyphens_isolated s \<Longrightarrow> no_edge_hyphen (strip_edge_hyphens s)"
  unfolding strip_edge_hyphens_def
  by (rule strip_trailing_no_edge) (auto simp: strip_leading_isolated strip_leading_head)

lemma strip_filter:
  "filter is_lower_alnum (strip_edge_hyphens s) = filter is_lower_alnum s"
proof -
  have bl: "filter is_lower_alnum (strip_trailing_hyphen t) = filter is_lower_alnum t" for t
    by (induction t) (auto simp: strip_trailing_hyphen_def split: if_splits)
  have "filter is_lower_alnum (strip_leading_hyphen s) = filter is_lower_alnum s"
    by (cases s) (auto simp: strip_leading_hyphen_def)
  with bl show ?thesis
    by (simp add: strip_edge_hyphens_def)
qed

lemma isolated_no_adjacent: "hyphens_isolated s \<Longrightarrow> \<not> adjacent_hyphens s"
  by (induction s rule: hyphens_isolated.induct) auto

subsection \<open>Words and separators\<close>

lemma codes_member:
  assumes "map char_of [a ..< b] = cs" "a \<le> (of_char c :: nat)" "of_char c < b"
  shows "c \<in> set cs"
proof -
  from assms(2,3) have "(of_char c :: nat) \<in> set [a ..< b]" by simp
  then have "char_of (of_char c :: nat) \<in> set (map char_of [a ..< b])"
    unfolding set_map by (rule imageI)
  then show ?thesis unfolding assms(1) by simp
qed

lemma member_codes:
  assumes "map char_of [a ..< b] = cs" "c \<in> set cs" "b \<le> 256"
  shows "a \<le> (of_char c :: nat) \<and> of_char c < b"
proof -
  from assms(1,2) obtain n where n: "a \<le> n" "n < b" "c = char_of n" by auto
  with assms(3) have "(of_char c :: nat) = n" by simp
  with n show ?thesis by simp
qed

lemma digit_codes: "map char_of [48 ..< 58 :: nat] = ''0123456789''"
  by code_simp

lemma capital_letter_codes: "map char_of [65 ..< 91 :: nat] = ''ABCDEFGHIJKLMNOPQRSTUVWXYZ''"
  by code_simp

lemma small_letter_codes: "map char_of [97 ..< 123 :: nat] = ''abcdefghijklmnopqrstuvwxyz''"
  by code_simp

lemma codes_iff:
  assumes "map char_of [a ..< b] = cs" "b \<le> 256"
  shows "c \<in> set cs \<longleftrightarrow> a \<le> (of_char c :: nat) \<and> (of_char c :: nat) < b"
  using codes_member [OF assms(1), of c] member_codes [OF assms(1) _ assms(2), of c] by blast

lemma capital_codes: "capital c \<longleftrightarrow> 65 \<le> (of_char c :: nat) \<and> (of_char c :: nat) \<le> 90"
proof -
  have "capital c \<longleftrightarrow> 65 \<le> (of_char c :: nat) \<and> (of_char c :: nat) < 91"
    unfolding capital_def by (rule codes_iff [OF capital_letter_codes]) simp
  then show ?thesis by auto
qed

lemma alphanumeric_codes:
  "alphanumeric c \<longleftrightarrow>
     (48 \<le> (of_char c :: nat) \<and> (of_char c :: nat) \<le> 57) \<or>
     (65 \<le> (of_char c :: nat) \<and> (of_char c :: nat) \<le> 90) \<or>
     (97 \<le> (of_char c :: nat) \<and> (of_char c :: nat) \<le> 122)"
proof -
  have e: "''0123456789ABCDEFGHIJKLMNOPQRSTUVWXYZabcdefghijklmnopqrstuvwxyz'' =
      ''0123456789'' @ ''ABCDEFGHIJKLMNOPQRSTUVWXYZ'' @ ''abcdefghijklmnopqrstuvwxyz''"
    by simp
  have d: "c \<in> set ''0123456789'' \<longleftrightarrow> 48 \<le> (of_char c :: nat) \<and> (of_char c :: nat) < 58"
    by (rule codes_iff [OF digit_codes]) simp
  have u: "c \<in> set ''ABCDEFGHIJKLMNOPQRSTUVWXYZ'' \<longleftrightarrow> 65 \<le> (of_char c :: nat) \<and> (of_char c :: nat) < 91"
    by (rule codes_iff [OF capital_letter_codes]) simp
  have l: "c \<in> set ''abcdefghijklmnopqrstuvwxyz'' \<longleftrightarrow> 97 \<le> (of_char c :: nat) \<and> (of_char c :: nat) < 123"
    by (rule codes_iff [OF small_letter_codes]) simp
  have "alphanumeric c \<longleftrightarrow>
      (48 \<le> (of_char c :: nat) \<and> (of_char c :: nat) < 58) \<or>
      (65 \<le> (of_char c :: nat) \<and> (of_char c :: nat) < 91) \<or>
      (97 \<le> (of_char c :: nat) \<and> (of_char c :: nat) < 123)"
    unfolding alphanumeric_def e set_append Un_iff d u l ..
  then show ?thesis by auto
qed

lemma lower_case_letters: "map lower_case ''ABCDEFGHIJKLMNOPQRSTUVWXYZ'' = ''abcdefghijklmnopqrstuvwxyz''"
  by code_simp

lemma alphanumeric_lower:
  assumes "alphanumeric c"
  shows "toLowerCase_char c = lower_case c" "is_lower_alnum (lower_case c)"
proof -
  define n where "n = (of_char c :: nat)"
  from assms have r: "(48 \<le> n \<and> n \<le> 57) \<or> (65 \<le> n \<and> n \<le> 90) \<or> (97 \<le> n \<and> n \<le> 122)"
    unfolding alphanumeric_codes n_def .
  have k: "capital c \<longleftrightarrow> 65 \<le> n \<and> n \<le> 90"
    unfolding capital_codes n_def ..
  from r show "toLowerCase_char c = lower_case c"
    by (auto simp: toLowerCase_char_def lower_case_def k Let_def n_def [symmetric])
  show "is_lower_alnum (lower_case c)"
  proof (cases "capital c")
    case True
    with k have "(of_char (char_of (n + 32)) :: nat) = n + 32" by simp
    with True k show ?thesis
      by (simp add: lower_case_def is_lower_alnum_def Let_def n_def [symmetric])
  next
    case False
    with k r show ?thesis
      by (auto simp: lower_case_def is_lower_alnum_def Let_def n_def [symmetric])
  qed
qed

lemma separator_lower:
  assumes "\<not> alphanumeric c"
  shows "\<not> is_lower_alnum (toLowerCase_char c)"
proof -
  define n where "n = (of_char c :: nat)"
  from assms have r: "\<not> ((48 \<le> n \<and> n \<le> 57) \<or> (65 \<le> n \<and> n \<le> 90) \<or> (97 \<le> n \<and> n \<le> 122))"
    unfolding alphanumeric_codes n_def .
  show ?thesis
  proof (cases "192 \<le> n \<and> n \<le> 222 \<and> n \<noteq> 215")
    case True
    then have "(of_char (char_of (n + 32)) :: nat) = n + 32" by simp
    with True r show ?thesis
      by (simp add: is_lower_alnum_def toLowerCase_char_def Let_def n_def [symmetric])
  next
    case False
    with r have "\<not> ((65 \<le> n \<and> n \<le> 90) \<or> (192 \<le> n \<and> n \<le> 222 \<and> n \<noteq> 215))"
      by auto
    then have "toLowerCase_char c = c"
      by (simp only: toLowerCase_char_def Let_def n_def [symmetric] if_False)
    with r show ?thesis
      by (simp add: is_lower_alnum_def Let_def n_def [symmetric])
  qed
qed

lemma toLowerCase_Nil [simp]: "toLowerCase t = [] \<longleftrightarrow> t = []"
  by (simp add: toLowerCase_def)

lemma toLowerCase_word:
  "list_all alphanumeric w \<Longrightarrow>
   toLowerCase w = map lower_case w \<and> list_all is_lower_alnum (map lower_case w)"
  by (induction w) (simp_all add: toLowerCase_def alphanumeric_lower)

lemma toLowerCase_separator:
  "list_all (\<lambda>c. \<not> alphanumeric c) t \<Longrightarrow> list_all (\<lambda>c. \<not> is_lower_alnum c) (toLowerCase t)"
  by (induction t) (simp_all add: toLowerCase_def separator_lower)

lemma toLowerCase_append: "toLowerCase (a @ b) = toLowerCase a @ toLowerCase b"
  by (simp add: toLowerCase_def)

lemma replace_runs_word:
  "list_all is_lower_alnum w \<Longrightarrow> replace_non_alnum_runs (w @ r) = w @ replace_non_alnum_runs r"
  by (induction w) simp_all

lemma dropWhile_separator:
  "list_all (\<lambda>c. \<not> is_lower_alnum c) t \<Longrightarrow> r = [] \<or> is_lower_alnum (hd r) \<Longrightarrow>
   dropWhile (\<lambda>d. \<not> is_lower_alnum d) (t @ r) = r"
  by (induction t) (auto simp: dropWhile_eq_self_iff)

lemma replace_runs_separator:
  assumes "t \<noteq> []" "list_all (\<lambda>c. \<not> is_lower_alnum c) t" "r = [] \<or> is_lower_alnum (hd r)"
  shows "replace_non_alnum_runs (t @ r) = CHR ''-'' # replace_non_alnum_runs r"
proof -
  from assms(1) obtain c cs where t: "t = c # cs" by (cases t) auto
  with assms(2) have c: "\<not> is_lower_alnum c" "list_all (\<lambda>c. \<not> is_lower_alnum c) cs" by simp_all
  from dropWhile_separator [OF c(2) assms(3)] c(1) show ?thesis
    by (simp add: t)
qed

lemma replace_runs_margin:
  assumes "list_all (\<lambda>c. \<not> is_lower_alnum c) t" "r = [] \<or> is_lower_alnum (hd r)"
  shows "replace_non_alnum_runs (t @ r) = (if t = [] then [] else ''-'') @ replace_non_alnum_runs r"
  using replace_runs_separator [OF _ assms] by (cases "t = []") simp_all

text \<open>The pieces behind the first word: a separator and a word each, lower-cased.\<close>

lemma replace_runs_pieces:
  assumes "list_all (\<lambda>(t, w). t \<noteq> [] \<and> list_all (\<lambda>c. \<not> is_lower_alnum c) t \<and>
                       w \<noteq> [] \<and> list_all is_lower_alnum w) ps"
    and "list_all (\<lambda>c. \<not> is_lower_alnum c) trail"
  shows "replace_non_alnum_runs (concat (map (\<lambda>(t, w). t @ w) ps) @ trail) =
         concat (map (\<lambda>(t, w). CHR ''-'' # w) ps) @ (if trail = [] then [] else ''-'')"
  using assms(1)
proof (induction ps)
  case Nil
  from replace_runs_margin [OF assms(2), of "[]"] show ?case by simp
next
  case (Cons p ps)
  obtain t w where p: "p = (t, w)" by (cases p)
  with Cons.prems have h: "t \<noteq> []" "list_all (\<lambda>c. \<not> is_lower_alnum c) t" "w \<noteq> []"
    "list_all is_lower_alnum w"
    and rest: "list_all (\<lambda>(t, w). t \<noteq> [] \<and> list_all (\<lambda>c. \<not> is_lower_alnum c) t \<and>
                       w \<noteq> [] \<and> list_all is_lower_alnum w) ps"
    by simp_all
  let ?r = "concat (map (\<lambda>(t, w). t @ w) ps) @ trail"
  from h(3,4) have "is_lower_alnum (hd (w @ ?r))" by (cases w) simp_all
  then have "replace_non_alnum_runs (t @ w @ ?r) = CHR ''-'' # replace_non_alnum_runs (w @ ?r)"
    by (intro replace_runs_separator [OF h(1,2)]) simp
  also have "\<dots> = CHR ''-'' # w @ replace_non_alnum_runs ?r"
    by (simp add: replace_runs_word [OF h(4)])
  finally show ?case
    using Cons.IH [OF rest] by (simp add: p)
qed

lemma pieces_last:
  assumes "list_all (\<lambda>(t, w). w \<noteq> [] \<and> list_all is_lower_alnum w) ps"
    and "w0 \<noteq> []" "list_all is_lower_alnum w0"
  shows "is_lower_alnum (last (w0 @ concat (map (\<lambda>(t, w). CHR ''-'' # w) ps)))"
  using assms
proof (induction ps arbitrary: w0)
  case Nil
  then show ?case by (simp add: list_all_iff)
next
  case (Cons p ps)
  obtain t w where p: "p = (t, w)" by (cases p)
  with Cons.prems(1) have w: "w \<noteq> []" "list_all is_lower_alnum w"
    and rest: "list_all (\<lambda>(t, w). w \<noteq> [] \<and> list_all is_lower_alnum w) ps" by simp_all
  from Cons.IH [OF rest w] w(1) show ?case
    by (simp add: p)
qed

lemma strip_margins:
  assumes "body \<noteq> []" "is_lower_alnum (hd body)" "is_lower_alnum (last body)"
    and "a = [] \<or> a = ''-''" "b = [] \<or> b = ''-''"
  shows "strip_edge_hyphens (a @ body @ b) = body"
proof -
  from assms(2,3) have e: "hd body \<noteq> CHR ''-''" "last body \<noteq> CHR ''-''" by auto
  from assms(1) e(1) assms(4) have l: "strip_leading_hyphen (a @ body @ b) = body @ b"
    by (cases body) (auto simp: strip_leading_hyphen_def)
  from assms(1) e(2) assms(5) have "strip_trailing_hyphen (body @ b) = body"
    by (auto simp: strip_trailing_hyphen_def butlast_append)
  with l show ?thesis by (simp add: strip_edge_hyphens_def)
qed

lemma slug_of_words:
  assumes "list_all (\<lambda>c. \<not> alphanumeric c) (lead @ trail)"
    and "w0 \<noteq> []" "list_all alphanumeric w0"
    and "list_all (\<lambda>(sep, w). sep \<noteq> [] \<and> list_all (\<lambda>c. \<not> alphanumeric c) sep \<and>
                         w \<noteq> [] \<and> list_all alphanumeric w) rest"
  shows "generateFallbackBestPracticeId (lead @ w0 @ concat (map (\<lambda>(sep, w). sep @ w) rest) @ trail) =
         map lower_case w0 @ concat (map (\<lambda>(sep, w). CHR ''-'' # map lower_case w) rest)"
proof -
  define ps where "ps = map (\<lambda>(sep, w). (toLowerCase sep, toLowerCase w)) rest"
  let ?lead = "toLowerCase lead" and ?trail = "toLowerCase trail" and ?w0 = "map lower_case w0"
  from assms(1) have m: "list_all (\<lambda>c. \<not> is_lower_alnum c) ?lead"
    "list_all (\<lambda>c. \<not> is_lower_alnum c) ?trail"
    by (simp_all add: toLowerCase_separator)
  from toLowerCase_word [OF assms(3)] assms(2)
  have w0: "toLowerCase w0 = ?w0" "list_all is_lower_alnum ?w0" "?w0 \<noteq> []" by simp_all
  have low: "toLowerCase (concat (map (\<lambda>(sep, w). sep @ w) rest)) = concat (map (\<lambda>(t, w). t @ w) ps)"
    unfolding ps_def by (induction rest) (auto simp: toLowerCase_append)
  have ps: "list_all (\<lambda>(t, w). t \<noteq> [] \<and> list_all (\<lambda>c. \<not> is_lower_alnum c) t \<and>
                       w \<noteq> [] \<and> list_all is_lower_alnum w) ps"
    using assms(4) unfolding ps_def
  proof (induction rest)
    case Nil
    show ?case by simp
  next
    case (Cons p rest)
    obtain sep w where p: "p = (sep, w)" by (cases p)
    with Cons.prems have h: "sep \<noteq> []" "list_all (\<lambda>c. \<not> alphanumeric c) sep" "w \<noteq> []"
      "list_all alphanumeric w" by simp_all
    from toLowerCase_word [OF h(4)] have w: "list_all is_lower_alnum (toLowerCase w)" by simp
    from Cons.prems have "list_all (\<lambda>(sep, w). sep \<noteq> [] \<and> list_all (\<lambda>c. \<not> alphanumeric c) sep \<and>
                         w \<noteq> [] \<and> list_all alphanumeric w) rest" by simp
    with Cons.IH w h(1,3) toLowerCase_separator [OF h(2)] show ?case
      by (simp add: p)
  qed
  have out: "concat (map (\<lambda>(t, w). CHR ''-'' # w) ps) =
             concat (map (\<lambda>(sep, w). CHR ''-'' # map lower_case w) rest)"
    using assms(4) unfolding ps_def
  proof (induction rest)
    case Nil
    show ?case by simp
  next
    case (Cons p rest)
    obtain sep w where p: "p = (sep, w)" by (cases p)
    with Cons.prems have "list_all alphanumeric w" by simp
    from toLowerCase_word [OF this] have w: "toLowerCase w = map lower_case w" by simp
    from Cons.prems have "list_all (\<lambda>(sep, w). sep \<noteq> [] \<and> list_all (\<lambda>c. \<not> alphanumeric c) sep \<and>
                         w \<noteq> [] \<and> list_all alphanumeric w) rest" by simp
    with Cons.IH w show ?case by (simp add: p)
  qed
  let ?body = "?w0 @ concat (map (\<lambda>(t, w). CHR ''-'' # w) ps)"
  have "toLowerCase (lead @ w0 @ concat (map (\<lambda>(sep, w). sep @ w) rest) @ trail) =
        ?lead @ ?w0 @ concat (map (\<lambda>(t, w). t @ w) ps) @ ?trail"
    by (simp add: toLowerCase_append w0(1) low)
  moreover have "replace_non_alnum_runs (?lead @ ?w0 @ concat (map (\<lambda>(t, w). t @ w) ps) @ ?trail) =
        (if ?lead = [] then [] else ''-'') @ ?body @ (if ?trail = [] then [] else ''-'')"
  proof -
    from w0(2,3) have "is_lower_alnum (hd (?w0 @ concat (map (\<lambda>(t, w). t @ w) ps) @ ?trail))"
      by (cases ?w0) simp_all
    then have "replace_non_alnum_runs (?lead @ ?w0 @ concat (map (\<lambda>(t, w). t @ w) ps) @ ?trail) =
        (if ?lead = [] then [] else ''-'')
          @ replace_non_alnum_runs (?w0 @ concat (map (\<lambda>(t, w). t @ w) ps) @ ?trail)"
      by (intro replace_runs_margin [OF m(1)]) simp
    then show ?thesis
      by (simp add: replace_runs_word [OF w0(2)] replace_runs_pieces [OF ps m(2)])
  qed
  moreover have "strip_edge_hyphens
        ((if ?lead = [] then [] else ''-'') @ ?body @ (if ?trail = [] then [] else ''-'')) = ?body"
  proof (rule strip_margins)
    from w0(3) show "?body \<noteq> []" by simp
    from w0(2,3) show "is_lower_alnum (hd ?body)" by (cases ?w0) simp_all
    have "list_all (\<lambda>(t, w). w \<noteq> [] \<and> list_all is_lower_alnum w) ps"
      using ps by (induction ps) auto
    from pieces_last [OF this w0(3,2)] show "is_lower_alnum (last ?body)" .
  qed simp_all
  ultimately show ?thesis
    by (simp add: generateFallbackBestPracticeId_def out)
qed

lemma slug_of_separators:
  assumes "list_all (\<lambda>c. \<not> alphanumeric c) t"
  shows "generateFallbackBestPracticeId t = []"
proof -
  from replace_runs_margin [OF toLowerCase_separator [OF assms], of "[]"]
  have "replace_non_alnum_runs (toLowerCase t) = (if toLowerCase t = [] then [] else ''-'')"
    by simp
  then show ?thesis
    by (simp add: generateFallbackBestPracticeId_def strip_edge_hyphens_def strip_leading_hyphen_def
        strip_trailing_hyphen_def)
qed

text \<open>
  Claim C6. \<open>generateFallbackBestPracticeId\<close> is a function of its argument alone and is
  idempotent; its result consists of characters \<open>a-z\<close>, \<open>0-9\<close> and hyphens, no two hyphens
  are adjacent, and it neither starts nor ends with a hyphen. A name is words of
  alphanumeric characters with runs of other characters between and around them: the
  result is the words in lower case with one hyphen for each run between two words, and
  nothing for the runs at the ends; a name without a word gives the empty string.
  \<open>"Foo Bar!"\<close> becomes \<open>"foo-bar"\<close>.
\<close>

theorem generateFallbackBestPracticeId_slug:
  "generateFallbackBestPracticeId (generateFallbackBestPracticeId s) = generateFallbackBestPracticeId s \<and>
   (\<forall>c \<in> set (generateFallbackBestPracticeId s). is_lower_alnum c \<or> c = CHR ''-'') \<and>
   \<not> adjacent_hyphens (generateFallbackBestPracticeId s) \<and>
   (generateFallbackBestPracticeId s \<noteq> [] \<longrightarrow>
      hd (generateFallbackBestPracticeId s) \<noteq> CHR ''-'' \<and>
      last (generateFallbackBestPracticeId s) \<noteq> CHR ''-'') \<and>
   filter is_lower_alnum (generateFallbackBestPracticeId s) = filter is_lower_alnum (toLowerCase s) \<and>
   (list_all (\<lambda>c. \<not> alphanumeric c) (lead @ trail) \<and> w0 \<noteq> [] \<and> list_all alphanumeric w0 \<and>
    list_all (\<lambda>(sep, w). sep \<noteq> [] \<and> list_all (\<lambda>c. \<not> alphanumeric c) sep \<and>
                         w \<noteq> [] \<and> list_all alphanumeric w) rest \<longrightarrow>
      generateFallbackBestPracticeId (lead @ w0 @ concat (map (\<lambda>(sep, w). sep @ w) rest) @ trail) =
        map lower_case w0 @ concat (map (\<lambda>(sep, w). CHR ''-'' # map lower_case w) rest)) \<and>
   (list_all (\<lambda>c. \<not> alphanumeric c) lead \<longrightarrow> generateFallbackBestPracticeId lead = []) \<and>
   generateFallbackBestPracticeId ''Foo Bar!'' = ''foo-bar''"
proof -
  let ?o = "generateFallbackBestPracticeId s"
  have c: "slug_chars ?o"
    unfolding generateFallbackBestPracticeId_def by (rule strip_chars [OF replace_runs_chars])
  have i: "hyphens_isolated ?o"
    unfolding generateFallbackBestPracticeId_def by (rule strip_isolated [OF replace_runs_isolated])
  have e: "no_edge_hyphen ?o"
    unfolding generateFallbackBestPracticeId_def by (rule strip_no_edge [OF replace_runs_isolated])
  have 1: "generateFallbackBestPracticeId ?o = ?o"
    using c i e
    by (simp add: generateFallbackBestPracticeId_def [of ?o] toLowerCase_fixed replace_runs_fixed
        strip_fixed)
  have 2: "\<forall>c \<in> set ?o. is_lower_alnum c \<or> c = CHR ''-''"
    using c by (simp add: slug_chars_def)
  have 3: "\<not> adjacent_hyphens ?o"
    using i by (rule isolated_no_adjacent)
  have 4: "?o \<noteq> [] \<longrightarrow> hd ?o \<noteq> CHR ''-'' \<and> last ?o \<noteq> CHR ''-''"
    using e by (simp add: no_edge_hyphen_def)
  have 5: "filter is_lower_alnum ?o = filter is_lower_alnum (toLowerCase s)"
    by (simp add: generateFallbackBestPracticeId_def strip_filter replace_runs_filter)
  have 6: "generateFallbackBestPracticeId ''Foo Bar!'' = ''foo-bar''"
    by code_simp
  note 7 = slug_of_words [of lead trail w0 rest] slug_of_separators [of lead]
  from 1 2 3 4 5 6 7 show ?thesis by blast
qed

text \<open>
  The name \<open>"  Cost -- Optimization (v2)  "\<close>: three words, blanks and punctuation between
  and around them.
\<close>

theorem generateFallbackBestPracticeId_slug_witness:
  "list_all (\<lambda>c. \<not> alphanumeric c) (''  '' @ '')  '') \<and> list_all alphanumeric ''Cost'' \<and>
   list_all (\<lambda>(sep, w). sep \<noteq> [] \<and> list_all (\<lambda>c. \<not> alphanumeric c) sep \<and>
                        w \<noteq> [] \<and> list_all alphanumeric w)
     [('' -- '', ''Optimization''), ('' ('', ''v2'')] \<and>
   generateFallbackBestPracticeId ''  Cost -- Optimization (v2)  '' = ''cost-optimization-v2'' \<and>
   generateFallbackBestPracticeId ''cost-optimization-v2'' = ''cost-optimization-v2'' \<and>
   \<not> adjacent_hyphens ''cost-optimization-v2'' \<and>
   hd ''cost-optimization-v2'' \<noteq> CHR ''-'' \<and> last ''cost-optimization-v2'' \<noteq> CHR ''-''"
proof -
  have h: "list_all (\<lambda>c. \<not> alphanumeric c) (''  '' @ '')  '')" "list_all alphanumeric ''Cost''"
    "list_all (\<lambda>(sep, w). sep \<noteq> [] \<and> list_all (\<lambda>c. \<not> alphanumeric c) sep \<and>
                        w \<noteq> [] \<and> list_all alphanumeric w)
       [('' -- '', ''Optimization''), ('' ('', ''v2'')]"
    by (simp_all add: alphanumeric_def)
  have l: "map lower_case ''Cost'' @ concat (map (\<lambda>(sep, w). CHR ''-'' # map lower_case w)
             [('' -- '', ''Optimization''), ('' ('', ''v2'')]) = ''cost-optimization-v2''"
    by code_simp
  have i: "''  '' @ ''Cost'' @ concat (map (\<lambda>(sep, w). sep @ w)
             [('' -- '', ''Optimization''), ('' ('', ''v2'')]) @ '')  '' = ''  Cost -- Optimization (v2)  ''"
    by simp
  from generateFallbackBestPracticeId_slug
    [of "''  Cost -- Optimization (v2)  ''" "''  ''" "'')  ''" "''Cost''"
        "[('' -- '', ''Optimization''), ('' ('', ''v2'')]"] h
  have v: "generateFallbackBestPracticeId ''  Cost -- Optimization (v2)  '' = ''cost-optimization-v2''"
    unfolding i l by blast
  show ?thesis
    using generateFallbackBestPracticeId_slug
      [of "''  Cost -- Optimization (v2)  ''" "''  ''" "'')  ''" "''Cost''"
          "[('' -- '', ''Optimization''), ('' ('', ''v2'')]"] h
    unfolding v by simp
qed
section \<open>Mapping verdicts to best-practice ids: proofs\<close>

text \<open>
  Claim C3. When the response carries a verdict list, \<open>parseModelResponse\<close> returns one
  record per verdict, whatever the length of the id list; the record at index \<open>i\<close> copies
  the verdict's fields and gets the id at index \<open>i\<close> of \<open>bestPracticeIds\<close>, or no id when
  \<open>i\<close> is past the end of that list. No length is compared and no error is raised.
\<close>

theorem parseModelResponse_positional:
  assumes "mr_bestPractices response = Some bps"
  shows "\<exists>vs. parseModelResponse response questionGroup = Inr vs \<and> length vs = length bps \<and>
           (\<forall>i < length bps.
              practiceId (vs ! i) =
                (if i < length (bestPracticeIds questionGroup)
                 then Some (bestPracticeIds questionGroup ! i) else None) \<and>
              name (vs ! i) = name (bps ! i) \<and> applied (vs ! i) = applied (bps ! i) \<and>
              reasonApplied (vs ! i) = reasonApplied (bps ! i) \<and>
              reasonNotApplied (vs ! i) = reasonNotApplied (bps ! i) \<and>
              recommendations (vs ! i) = recommendations (bps ! i))"
  using assms by (simp add: parseModelResponse_def index_opt_def nth_enumerate_eq)

theorem parseModelResponse_positional_witness:
  "\<exists>vs. parseModelResponse \<lparr> mr_bestPractices = Some [demo_bp, demo_bp] \<rparr> demo_group = Inr vs \<and>
        length vs = 2 \<and> practiceId (vs ! 0) = Some ''sec_1'' \<and> practiceId (vs ! 1) = None"
  using parseModelResponse_positional
    [of "\<lparr> mr_bestPractices = Some [demo_bp, demo_bp] \<rparr>" "[demo_bp, demo_bp]" demo_group]
  by (auto simp: demo_group_def)

section \<open>Grouping the taxonomy: proofs\<close>

lemma map_set_fresh: "\<not> map_has k m \<Longrightarrow> map_set k v m = m @ [(k, v)]"
  by (induction m) (auto simp: map_has_def)

lemma push_practice_keys [simp]: "map fst (push_practice k p m) = map fst m"
  by (induction m) auto

lemma push_practice_other:
  "(q, d) \<in> set (push_practice k p m) \<Longrightarrow> q \<noteq> k \<Longrightarrow> (q, d) \<in> set m"
  by (induction m) (auto split: if_splits)

lemma push_practice_same:
  "(k, d) \<in> set (push_practice k p m) \<Longrightarrow> distinct (map fst m) \<Longrightarrow>
   \<exists>d0. (k, d0) \<in> set m \<and> d = d0\<lparr>practices := practices d0 @ [p]\<rparr>"
proof (induction m)
  case Nil
  then show ?case by simp
next
  case (Cons a m)
  obtain k' d' where a: "a = (k', d')" by (cases a)
  show ?case
  proof (cases "k' = k")
    case True
    with Cons.prems a have "k \<notin> fst ` set m" by simp
    then have "(k, d) \<notin> set m" by force
    with Cons.prems a True show ?thesis by auto
  next
    case False
    with Cons a show ?thesis by auto
  qed
qed

lemma add_best_practice_groups:
  assumes "groups_of xs m"
  shows "groups_of (xs @ [bp]) (add_best_practice m bp)"
proof -
  let ?k = "Question bp"
  let ?p = "(Best_Practice bp, bestPracticeId bp)"
  let ?row = "\<lambda>ys q. map (\<lambda>bp. (Best_Practice bp, bestPracticeId bp)) (filter (\<lambda>bp. Question bp = q) ys)"
  define m1 where "m1 =
     (if \<not> map_has ?k m then map_set ?k \<lparr>practices = [], gd_questionId = wa_questionId bp\<rparr> m else m)"
  have res: "add_best_practice m bp = push_practice ?k ?p m1"
    by (simp add: add_best_practice_def m1_def Let_def)
  from assms have d: "distinct (map fst m)" and k: "set (map fst m) = set (map Question xs)"
    and r: "\<And>q d. (q, d) \<in> set m \<Longrightarrow> practices d = ?row xs q"
    by (auto simp: groups_of_def list_all_iff)
  have d1: "distinct (map fst m1)"
    using d by (auto simp: m1_def map_set_fresh map_has_def)
  have k1: "set (map fst m1) = insert ?k (set (map Question xs))"
    using k by (auto simp: m1_def map_set_fresh map_has_def)
  have r1: "practices d = ?row xs q" if "(q, d) \<in> set m1" for q d
  proof (cases "(q, d) \<in> set m")
    case True
    then show ?thesis by (rule r)
  next
    case False
    with that have new: "\<not> map_has ?k m" "q = ?k" "practices d = []"
      by (auto simp: m1_def map_set_fresh split: if_splits)
    from new(1) k have "?k \<notin> Question ` set xs"
      by (simp add: map_has_def)
    then have "\<forall>b \<in> set xs. Question b \<noteq> ?k"
      by (metis imageI)
    then have "filter (\<lambda>b. Question b = ?k) xs = []"
      by (simp add: filter_empty_conv)
    with new show ?thesis by simp
  qed
  have r2: "practices d = ?row (xs @ [bp]) q" if "(q, d) \<in> set (push_practice ?k ?p m1)" for q d
  proof (cases "q = ?k")
    case True
    with that push_practice_same [OF _ d1] obtain d0
      where "(?k, d0) \<in> set m1" "d = d0\<lparr>practices := practices d0 @ [?p]\<rparr>" by blast
    with r1 [of ?k d0] True show ?thesis by simp
  next
    case False
    with that have "(q, d) \<in> set m1" by (rule push_practice_other)
    with r1 False show ?thesis by auto
  qed
  show ?thesis
    unfolding res groups_of_def using d1 k1 r2
    by (auto simp: list_all_iff)
qed

lemma foldl_groups: "groups_of xs (foldl add_best_practice [] xs)"
proof (induction xs rule: rev_induct)
  case Nil
  show ?case by (simp add: groups_of_def)
next
  case (snoc x xs)
  then show ?case by (simp add: add_best_practice_groups)
qed

text \<open>
  Claim C8. For every cached taxonomy and pillar id, each question group returned by
  \<open>retrieveBestPractices\<close> has as many ids as practice names, and pairing them position
  by position gives exactly the (name, id) pairs of the pillar's taxonomy entries of that
  question, in taxonomy order; the groups have distinct titles.
\<close>

theorem retrieveBestPractices_aligned:
  "(\<forall>g \<in> set (retrieveBestPractices allBestPractices pillarId).
      length (bestPractices g) = length (bestPracticeIds g) \<and>
      zip (bestPractices g) (bestPracticeIds g) =
        map (\<lambda>bp. (Best_Practice bp, bestPracticeId bp))
          (filter (\<lambda>bp. Question bp = title g)
             (filter (\<lambda>bp. pillar_slug (Pillar bp) = pillarId) allBestPractices))) \<and>
   distinct (map title (retrieveBestPractices allBestPractices pillarId))"
proof -
  let ?xs = "filter (\<lambda>bp. pillar_slug (Pillar bp) = pillarId) allBestPractices"
  let ?m = "foldl add_best_practice [] ?xs"
  have g: "groups_of ?xs ?m" by (rule foldl_groups)
  have t: "map title (retrieveBestPractices allBestPractices pillarId) = map fst ?m"
    by (simp add: retrieveBestPractices_def Let_def split_def)
  from g have row: "\<And>q d. (q, d) \<in> set ?m \<Longrightarrow> practices d =
      map (\<lambda>bp. (Best_Practice bp, bestPracticeId bp)) (filter (\<lambda>bp. Question bp = q) ?xs)"
    by (auto simp: groups_of_def list_all_iff)
  have "\<forall>g \<in> set (retrieveBestPractices allBestPractices pillarId).
      length (bestPractices g) = length (bestPracticeIds g) \<and>
      zip (bestPractices g) (bestPracticeIds g) =
        map (\<lambda>bp. (Best_Practice bp, bestPracticeId bp)) (filter (\<lambda>bp. Question bp = title g) ?xs)"
  proof
    fix g
    assume "g \<in> set (retrieveBestPractices allBestPractices pillarId)"
    then obtain q d where qd: "(q, d) \<in> set ?m"
      and f: "title g = q" "bestPractices g = map fst (practices d)"
        "bestPracticeIds g = map snd (practices d)"
      by (auto simp: retrieveBestPractices_def Let_def)
    have "zip (bestPractices g) (bestPracticeIds g) = practices d"
      unfolding f by (rule zip_map_fst_snd)
    with row [OF qd] f show "length (bestPractices g) = length (bestPracticeIds g) \<and>
      zip (bestPractices g) (bestPracticeIds g) =
        map (\<lambda>bp. (Best_Practice bp, bestPracticeId bp)) (filter (\<lambda>bp. Question bp = title g) ?xs)"
      by simp
  qed
  moreover from g have "distinct (map title (retrieveBestPractices allBestPractices pillarId))"
    unfolding t by (simp add: groups_of_def)
  ultimately show ?thesis by blast
qed

lemma demo_retrieve:
  "retrieveBestPractices demo_taxonomy ''cost-optimization'' =
     [\<lparr> pillar = ''Cost Optimization'', title = ''Q1'', questionId = ''q1'',
        bestPractices = [''A'', ''C''], bestPracticeIds = [''a'', ''c''] \<rparr>,
      \<lparr> pillar = ''Cost Optimization'', title = ''Q2'', questionId = ''q2'',
        bestPractices = [''B''], bestPracticeIds = [''b''] \<rparr>]"
  by code_simp

theorem retrieveBestPractices_aligned_witness:
  "zip [''A'', ''C''] [''a'', ''c''] =
     map (\<lambda>bp. (Best_Practice bp, bestPracticeId bp))
       (filter (\<lambda>bp. Question bp = ''Q1'')
          (filter (\<lambda>bp. pillar_slug (Pillar bp) = ''cost-optimization'') demo_taxonomy)) \<and>
   length (retrieveBestPractices demo_taxonomy ''cost-optimization'') = 2"
  using retrieveBestPractices_aligned [of demo_taxonomy "''cost-optimization''"]
  unfolding demo_retrieve by simp

section \<open>Parsing a generation response: results\<close>

text \<open>
  Claim C4, at inputs where the code misses what it sets out to do. A response with the
  headers \<open># Section 1 - A\<close> and \<open># Section 2 - B\<close>, each with a body, parses to two sections
  of order 1 and 2 with descriptions \<open>A\<close> and \<open>B\<close>, complete with the sentinel and incomplete
  without it. A header without a number is not matched as a section at all, so it gets no
  section and the order \<open>999\<close> of the fallback is never given. A header that ends the text
  has lost its line feed to \<open>trim\<close>: its description is \<open>Unnamed Section\<close> and the header
  stays in the content.
\<close>

theorem parseImplementationModelResponse_unnumbered_header:
  "parseImplementationModelResponse demo_unnumbered = \<lparr> isComplete = True, sections = [] \<rparr> \<and>
   parseImplementationModelResponse (demo_two_sections @ end_of_iac_document_generation) =
     \<lparr> isComplete = True,
       sections = [\<lparr> content = ''Resources:'', order = Finite 1, description = ''A'' \<rparr>,
                   \<lparr> content = ''Outputs: {}'', order = Finite 2, description = ''B'' \<rparr>] \<rparr> \<and>
   parseImplementationModelResponse demo_two_sections =
     \<lparr> isComplete = False,
       sections = [\<lparr> content = ''Resources:'', order = Finite 1, description = ''A'' \<rparr>,
                   \<lparr> content = ''Outputs: {}'', order = Finite 2, description = ''B'' \<rparr>] \<rparr> \<and>
   parseImplementationModelResponse demo_headers_only =
     \<lparr> isComplete = True,
       sections = [\<lparr> content = [], order = Finite 1, description = ''A'' \<rparr>,
                   \<lparr> content = ''# Section 2 - B'', order = Finite 2,
                     description = ''Unnamed Section'' \<rparr>] \<rparr>"
  by code_simp

section \<open>Generating an IaC document: proofs\<close>

lemma sort_key_resort: "sort_key f (sort_key f xs @ ys) = sort_key f (xs @ ys)"
proof -
  have "sort_key f (xs @ ys) = sort_key f (sort_key f xs @ ys)"
  proof (rule properties_for_sort_key)
    show "mset (sort_key f (sort_key f xs @ ys)) = mset (xs @ ys)" by simp
    show "sorted (map f (sort_key f (sort_key f xs @ ys)))" by simp
    fix k
    have "filter (\<lambda>x. f k = f x) zs = filter (\<lambda>x. f x = f k) zs" for zs
      by (rule filter_cong) auto
    then show "filter (\<lambda>x. f k = f x) (sort_key f (sort_key f xs @ ys)) =
        filter (\<lambda>x. f k = f x) (xs @ ys)"
      by (simp add: sort_key_stable)
  qed
  then show ?thesis by simp
qed

lemma distinct_key_filter: "distinct (map f xs) \<Longrightarrow> length (filter (\<lambda>x. f x = k) xs) \<le> 1"
  by (induction xs) (auto simp: filter_empty_conv intro: rev_image_eqI)

lemma short_list_mset: "mset a = mset b \<Longrightarrow> length a \<le> 1 \<Longrightarrow> a = b"
proof -
  assume m: "mset a = mset b" and l: "length a \<le> 1"
  from m have "length a = length b" by (rule mset_eq_length)
  with m l show ?thesis
    by (cases a; cases b; cases "tl a"; cases "tl b") auto
qed

lemma sort_key_permutation:
  assumes "mset zs = mset xs" "distinct (map f xs)"
  shows "sort_key f zs = sort_key f xs"
proof (rule properties_for_sort_key)
  show "mset (sort_key f xs) = mset zs" using assms(1) by simp
  show "sorted (map f (sort_key f xs))" by simp
  fix k
  have sw: "filter (\<lambda>x. f k = f x) l = filter (\<lambda>x. f x = f k) l" for l
    by (rule filter_cong) auto
  have "mset (filter (\<lambda>x. f x = f k) xs) = mset (filter (\<lambda>x. f x = f k) zs)"
    using assms(1) by simp
  with distinct_key_filter [OF assms(2), of "f k"]
  have "filter (\<lambda>x. f x = f k) xs = filter (\<lambda>x. f x = f k) zs"
    by (rule short_list_mset [rotated])
  then show "filter (\<lambda>x. f k = f x) (sort_key f xs) = filter (\<lambda>x. f k = f x) zs"
    by (simp add: sw sort_key_stable)
qed

lemma generation_loop_completes:
  assumes "list_all continues pre" "isComplete (parseImplementationModelResponse final)"
  shows "\<exists>w'. generation_loop rq (pre @ Answers final # post) iteration acc w =
           Some (Returned \<lparr>gen_content = render_sections (sort_sections
                     (acc @ arrivals pre @ sections (parseImplementationModelResponse final))),
                   gen_isCancelled = False, gen_error = None\<rparr>, w')"
  using assms(1)
proof (induction pre arbitrary: iteration acc w)
  case Nil
  with assms(2) show ?case
    by (simp add: Let_def on_complete_def arrivals_def)
next
  case (Cons r pre)
  from Cons.prems have c: "continues r" and pre: "list_all continues pre" by simp_all
  from c obtain t where r: "r = Answers t"
    and t: "\<not> isComplete (parseImplementationModelResponse t)"
    by (cases r) (auto simp: continues_def)
  let ?acc1 = "acc @ sections (parseImplementationModelResponse t)"
  let ?rest = "arrivals pre @ sections (parseImplementationModelResponse final)"
  have a: "arrivals (r # pre) = sections (parseImplementationModelResponse t) @ arrivals pre"
    by (simp add: arrivals_def batch_sections_def r)
  have "sort_sections (sort_sections ?acc1 @ ?rest) = sort_sections (?acc1 @ ?rest)"
    unfolding sort_sections_def by (rule sort_key_resort)
  then have s: "sort_sections (checkpoint_sections ?acc1 @ ?rest) = sort_sections (?acc1 @ ?rest)"
    by (simp add: checkpoint_sections_def)
  from Cons.IH [OF pre, of "Suc iteration" "checkpoint_sections ?acc1"
      "checkpoint rq ?acc1 (begin_iteration rq iteration w)"] r t a s
  show ?case by simp
qed

lemma begin_iteration_keeps:
  "storedDocuments (begin_iteration rq iteration w) = storedDocuments w"
  "iacGenerationStatus (workItem (begin_iteration rq iteration w)) = iacGenerationStatus (workItem w)"
  by (simp_all add: begin_iteration_def Let_def emitImplementationProgress_def updateWorkItem_def)

lemma generation_loop_cancelled_empty:
  assumes "list_all (\<lambda>r. continues r \<and> batch_sections r = []) pre"
  shows "\<exists>w'. generation_loop rq (pre @ Cancelled # post) iteration [] w =
           Some (Returned \<lparr>gen_content = cancellationNote, gen_isCancelled = True, gen_error = None\<rparr>, w')
         \<and> storedDocuments w' = storedDocuments w
         \<and> iacGenerationStatus (workItem w') = iacGenerationStatus (workItem w)"
  using assms
proof (induction pre arbitrary: iteration w)
  case Nil
  show ?case
    by (simp add: Let_def on_cancelled_def sort_sections_def render_sections_def begin_iteration_keeps)
next
  case (Cons r pre)
  from Cons.prems have c: "continues r" "batch_sections r = []"
    and pre: "list_all (\<lambda>r. continues r \<and> batch_sections r = []) pre" by simp_all
  from c obtain t where r: "r = Answers t"
    and t: "\<not> isComplete (parseImplementationModelResponse t)"
      "sections (parseImplementationModelResponse t) = []"
    by (cases r) (auto simp: continues_def batch_sections_def)
  have "generation_loop rq ((r # pre) @ Cancelled # post) iteration [] w =
          generation_loop rq (pre @ Cancelled # post) (Suc iteration) [] (begin_iteration rq iteration w)"
    using r t by (simp add: checkpoint_sections_def checkpoint_def)
  with Cons.IH [OF pre, of "Suc iteration" "begin_iteration rq iteration w"] show ?case
    by (simp add: begin_iteration_keeps)
qed

lemma join_concat: "join sep (x # xs) = x @ concat (map (\<lambda>y. sep @ y) xs)"
  by (induction xs arbitrary: x) simp_all

lemma render_sections_concat:
  "render_sections ys =
     (case ys of
        [] \<Rightarrow> []
      | y # rest \<Rightarrow>
          ''# '' @ description y @ [CHR 0x0A] @ content y
            @ concat (map (\<lambda>s. [CHR 0x0A, CHR 0x0A] @ ''# '' @ description s @ [CHR 0x0A] @ content s)
                rest))"
  by (cases ys) (simp_all add: render_sections_def join_concat comp_def)

text \<open>
  Claim C7. When the invocations before the completing one all answer without the sentinel
  and the next one answers with it, \<open>generateIacDocument\<close> returns normally. With \<open>xs\<close> the
  sections in the order they arrived and \<open>ys\<close> their stable sort by \<open>order\<close>, the document is
  the concatenation of the sections of \<open>ys\<close>, each as \<open># description\<close>, a line feed and the
  content, with two line feeds between neighbours. \<open>ys\<close> is ascending in \<open>order\<close>, has the
  same sections as \<open>xs\<close>, and keeps sections of equal \<open>order\<close> in arrival order. Any other
  completing run of the same request whose arrived sections are those of \<open>xs\<close> in another
  sequence returns the same document, when the \<open>order\<close> values are distinct.
\<close>

theorem generateIacDocument_sorted_document:
  assumes "truthy (gr_userId rq)" "gr_fileContent rq = Inr (fileContent, fileType)"
    and "prefix ''image/'' fileType"
    and "list_all continues pre" "isComplete (parseImplementationModelResponse final)"
    and "xs = concat (map batch_sections pre) @ sections (parseImplementationModelResponse final)"
    and "ys = sort_key order xs"
    and "doc = (case ys of
                  [] \<Rightarrow> []
                | y # rest \<Rightarrow>
                    ''# '' @ description y @ [CHR 0x0A] @ content y
                      @ concat (map (\<lambda>s. [CHR 0x0A, CHR 0x0A] @ ''# '' @ description s @ [CHR 0x0A]
                                       @ content s) rest))"
  shows "(\<exists>w'. generateIacDocument rq (pre @ Answers final # post) w =
            Some (Returned \<lparr>gen_content = doc, gen_isCancelled = False, gen_error = None\<rparr>, w')) \<and>
         sorted (map order ys) \<and> mset ys = mset xs \<and>
         (\<forall>k. filter (\<lambda>s. order s = k) ys = filter (\<lambda>s. order s = k) xs) \<and>
         (\<forall>pre' final' post' v.
            list_all continues pre' \<and> isComplete (parseImplementationModelResponse final') \<and>
            mset (concat (map batch_sections pre') @ sections (parseImplementationModelResponse final'))
              = mset xs \<and>
            distinct (map order xs) \<longrightarrow>
            (\<exists>v'. generateIacDocument rq (pre' @ Answers final' # post') v =
               Some (Returned \<lparr>gen_content = doc, gen_isCancelled = False, gen_error = None\<rparr>, v')))"
proof -
  have run: "\<exists>w'. generateIacDocument rq (p @ Answers f # q) u =
            Some (Returned \<lparr>gen_content = render_sections (sort_key order
                     (concat (map batch_sections p) @ sections (parseImplementationModelResponse f))),
                   gen_isCancelled = False, gen_error = None\<rparr>, w')"
    if "list_all continues p" "isComplete (parseImplementationModelResponse f)" for p f q u
  proof -
    let ?u0 = "updateWorkItem (\<lambda>i. i\<lparr>iacGenerationStatus := IN_PROGRESS, iacGenerationProgress := 0\<rparr>) u"
    from generation_loop_completes [OF that, of rq q 0 "[]" ?u0]
    obtain w' where "generation_loop rq (p @ Answers f # q) 0 [] ?u0 =
        Some (Returned \<lparr>gen_content = render_sections (sort_key order
                 (concat (map batch_sections p) @ sections (parseImplementationModelResponse f))),
               gen_isCancelled = False, gen_error = None\<rparr>, w')"
      by (auto simp: arrivals_def sort_sections_def)
    with assms(1,2,3) show ?thesis
      by (auto simp: generateIacDocument_def)
  qed
  have doc: "render_sections ys = doc"
    unfolding assms(8) by (rule render_sections_concat)
  have 1: "\<exists>w'. generateIacDocument rq (pre @ Answers final # post) w =
            Some (Returned \<lparr>gen_content = doc, gen_isCancelled = False, gen_error = None\<rparr>, w')"
    using run [OF assms(4,5), of post w] unfolding assms(6) [symmetric] assms(7) [symmetric] doc .
  have 2: "sorted (map order ys)" "mset ys = mset xs"
    by (simp_all add: assms(7))
  have 3: "\<forall>k. filter (\<lambda>s. order s = k) ys = filter (\<lambda>s. order s = k) xs"
    by (simp add: assms(7) sort_key_stable)
  have 4: "\<exists>v'. generateIacDocument rq (pre' @ Answers final' # post') v =
               Some (Returned \<lparr>gen_content = doc, gen_isCancelled = False, gen_error = None\<rparr>, v')"
    if c: "list_all continues pre'" "isComplete (parseImplementationModelResponse final')"
      and m: "mset (concat (map batch_sections pre') @ sections (parseImplementationModelResponse final'))
              = mset xs"
      and d: "distinct (map order xs)"
    for pre' final' post' v
  proof -
    have "sort_key order (concat (map batch_sections pre') @ sections (parseImplementationModelResponse final'))
          = ys"
      unfolding assms(7) by (rule sort_key_permutation [OF m d])
    with run [OF c, of post' v] doc show ?thesis by simp
  qed
  from 1 2 3 4 show ?thesis by blast
qed

theorem generateIacDocument_sorted_document_witness:
  "\<exists>w'. generateIacDocument demo_request [Answers demo_batch_outputs, Answers demo_batch_resources]
          demo_world =
     Some (Returned \<lparr>gen_content = ''# Resources'' @ [CHR 0x0A] @ ''Resources: {}'' @ [CHR 0x0A, CHR 0x0A]
                        @ ''# Outputs'' @ [CHR 0x0A] @ ''Outputs: {}'',
                     gen_isCancelled = False, gen_error = None\<rparr>, w')"
proof -
  have a: "truthy (gr_userId demo_request)"
    "gr_fileContent demo_request = Inr (''data:image/png;base64,AAAA'', ''image/png'')"
    "prefix ''image/'' ''image/png''"
    by (simp_all add: demo_request_def truthy_def)
  have b: "list_all continues [Answers demo_batch_outputs]"
    "isComplete (parseImplementationModelResponse demo_batch_resources)"
    by code_simp+
  have c: "sort_key order (concat (map batch_sections [Answers demo_batch_outputs])
             @ sections (parseImplementationModelResponse demo_batch_resources)) =
           [\<lparr> content = ''Resources: {}'', order = Finite 1, description = ''Resources'' \<rparr>,
            \<lparr> content = ''Outputs: {}'', order = Finite 2, description = ''Outputs'' \<rparr>]"
    by code_simp
  show ?thesis
    using generateIacDocument_sorted_document [OF a b refl refl refl, of "[]" demo_world]
    unfolding c by simp
qed

text \<open>
  Claim C10. When the cancellation wins the race while no section has been accumulated
  (every earlier invocation answered without a section and without the sentinel),
  \<open>generateIacDocument\<close> returns \<open>isCancelled = true\<close> with exactly the cancellation note as
  content; \<open>storeIaCDocument\<close> has not been called and the work item has not been marked
  \<open>PARTIAL\<close>: its generation status is still \<open>IN_PROGRESS\<close>.
\<close>

theorem generateIacDocument_cancelled_without_sections:
  assumes "truthy (gr_userId rq)" "gr_fileContent rq = Inr (fileContent, fileType)"
    and "prefix ''image/'' fileType"
    and "list_all (\<lambda>r. continues r \<and> batch_sections r = []) pre"
  shows "\<exists>w'. generateIacDocument rq (pre @ Cancelled # post) w =
            Some (Returned \<lparr>gen_content = cancellationNote, gen_isCancelled = True,
                            gen_error = None\<rparr>, w') \<and>
          storedDocuments w' = storedDocuments w \<and>
          iacGenerationStatus (workItem w') = IN_PROGRESS"
proof -
  let ?w0 = "updateWorkItem (\<lambda>i. i\<lparr>iacGenerationStatus := IN_PROGRESS, iacGenerationProgress := 0\<rparr>) w"
  from generation_loop_cancelled_empty [OF assms(4), of rq post 0 ?w0]
  obtain w' where l: "generation_loop rq (pre @ Cancelled # post) 0 [] ?w0 =
      Some (Returned \<lparr>gen_content = cancellationNote, gen_isCancelled = True, gen_error = None\<rparr>, w')"
    and s: "storedDocuments w' = storedDocuments ?w0"
      "iacGenerationStatus (workItem w') = iacGenerationStatus (workItem ?w0)"
    by blast
  from s have "storedDocuments w' = storedDocuments w" "iacGenerationStatus (workItem w') = IN_PROGRESS"
    by (simp_all add: updateWorkItem_def)
  with l assms(1,2,3) show ?thesis
    by (auto simp: generateIacDocument_def)
qed

theorem generateIacDocument_cancelled_without_sections_witness:
  "\<exists>w'. generateIacDocument demo_request [Answers ''One moment.'', Cancelled] demo_world =
            Some (Returned \<lparr>gen_content = cancellationNote, gen_isCancelled = True,
                            gen_error = None\<rparr>, w') \<and>
          storedDocuments w' = [] \<and> iacGenerationStatus (workItem w') = IN_PROGRESS"
proof -
  have a: "truthy (gr_userId demo_request)"
    "gr_fileContent demo_request = Inr (''data:image/png;base64,AAAA'', ''image/png'')"
    "prefix ''image/'' ''image/png''"
    by (simp_all add: demo_request_def truthy_def)
  have b: "list_all (\<lambda>r. continues r \<and> batch_sections r = []) [Answers ''One moment.'']"
    by code_simp
  show ?thesis
    using generateIacDocument_cancelled_without_sections [OF a b, of "[]" demo_world]
    by (simp add: demo_world_def)
qed

section \<open>Detailed guidance: proofs\<close>

text \<open>
  Claim C9. When \<open>selectedItems\<close> is not empty and every item has \<open>applied = true\<close>,
  \<open>getMoreDetails\<close> throws instead of returning a content result, whatever the inference
  provider would answer, and leaves everything as it was: no inference call is made and no
  progress event is pushed. When the ids, the file type and the file content pass their
  checks, the error is the \<open>TypeError\<close> of reading \<open>name\<close> from the missing first element of
  the empty filtered list.
\<close>

theorem getMoreDetails_all_applied:
  assumes "dr_selectedItems rq \<noteq> []" "list_all applied (dr_selectedItems rq)"
  shows "(\<exists>message. getMoreDetails rq replies w = Some (Raised message, w)) \<and>
         (dr_fileId rq \<noteq> [] \<and> dr_userId rq \<noteq> [] \<and> truthy (wi_fileType (workItem w)) \<and>
          dr_originalContent rq = Inr fileContent \<longrightarrow>
            getMoreDetails rq replies w = Some (Raised undefined_name_error, w))"
proof -
  from assms(2) have f: "filter (\<lambda>item. \<not> applied item) (dr_selectedItems rq) = []"
    by (simp add: list_all_iff filter_empty_conv)
  show ?thesis
    using assms(1) unfolding getMoreDetails_def f Let_def
    by (cases "dr_originalContent rq") auto
qed

theorem getMoreDetails_all_applied_witness:
  "getMoreDetails demo_details_request [Replies ''# Security - Enforce encryption in transit''] demo_world =
     Some (Raised undefined_name_error, demo_world)"
proof -
  have a: "dr_selectedItems demo_details_request \<noteq> []" "list_all applied (dr_selectedItems demo_details_request)"
    by (simp_all add: demo_details_request_def demo_bp_def)
  have b: "dr_fileId demo_details_request \<noteq> [] \<and> dr_userId demo_details_request \<noteq> [] \<and>
      truthy (wi_fileType (workItem demo_world)) \<and>
      dr_originalContent demo_details_request = Inr ''Resources: {}''"
    by (simp add: demo_details_request_def demo_world_def demo_work_item_def truthy_def)
  from getMoreDetails_all_applied [OF a, of "[Replies ''# Security - Enforce encryption in transit'']" demo_world "''Resources: {}''"] b
  show ?thesis by blast
qed

section \<open>The analysis run: proofs\<close>

declare show_nat.simps [simp del]

lemma question_loop_flat:
  "question_loop rq fc ft tot p qs r n w = flat_loop rq fc ft tot (map (Pair p) qs) r n w"
  by (induction qs arbitrary: r n w) (auto split: sum.splits)

lemma flat_loop_append:
  "flat_loop rq fc ft tot (xs @ ys) r n w =
     (case flat_loop rq fc ft tot xs r n w of
        Inl exit \<Rightarrow> Inl exit
      | Inr (r', n', w') \<Rightarrow> flat_loop rq fc ft tot ys r' n' w')"
  by (induction xs arbitrary: r n w) (auto split: sum.splits)

lemma pillar_loop_flat:
  "pillar_loop rq fc ft tot ps r n w = flat_loop rq fc ft tot (visits ps) r n w"
proof (induction ps arbitrary: r n w)
  case Nil
  show ?case by (simp add: visits_def)
next
  case (Cons a ps)
  obtain p qs where a: "a = (p, qs)" by (cases a)
  have v: "visits (a # ps) = map (Pair p) qs @ visits ps"
    by (simp add: visits_def a)
  show ?case
    unfolding v flat_loop_append
    by (simp add: a question_loop_flat Cons.IH split: sum.splits)
qed

lemma visits_zip:
  "visits (zip ps (map f ps)) = concat (map (\<lambda>p. map (Pair p) (f p)) ps)"
  by (induction ps) (simp_all add: visits_def)

lemma total_visits:
  "sum_list (map (length \<circ> f) ps) = length (concat (map (\<lambda>p. map (Pair p) (f p)) ps))"
  by (induction ps) simp_all

lemma analyze_run:
  assumes "truthy (aq_userId rq)" "aq_fileContent rq = Inr (fc, ft)"
    and "aq_bestPractices rq = Inr allBestPractices"
    and "vs = concat (map (\<lambda>p. map (Pair p) (retrieveBestPractices allBestPractices p))
                        (aq_selectedPillars rq))"
  shows "analyze rq w =
     (case flat_loop rq fc ft (length vs) vs [] 0
             (updateWorkItem (\<lambda>i. i\<lparr>analysisStatus := IN_PROGRESS, analysisProgress := 0\<rparr>) w) of
        Inl exit \<Rightarrow> exit
      | Inr (results, processedQuestions, w2) \<Rightarrow>
          (case aq_workItem rq of
             Undefined \<Rightarrow> rethrow Undefined results (fileId_type_error ''undefined'') w2
           | Null \<Rightarrow> rethrow Null results (fileId_type_error ''null'') w2
           | Present i \<Rightarrow>
               (Returned \<lparr> an_results = results, an_isCancelled = False,
                           an_error = None, an_fileId = Some (wi_fileId i) \<rparr>,
                updateWorkItem (\<lambda>i. i\<lparr>analysisStatus := COMPLETED, analysisProgress := 100\<rparr>)
                  (storeAnalysisResults results w2))))"
  using assms(1,2,3) unfolding assms(4)
  by (simp add: analyze_def Let_def pillar_loop_flat visits_zip total_visits
      split: sum.splits nullable.splits)

lemma isCancelled_0 [simp]: "\<not> isCancelled rq 0"
  by (simp add: isCancelled_def)

lemma isCancelled_Suc:
  "isCancelled rq (Suc n) = (isCancelled rq n \<or> aq_cancelRequested rq n)"
  by (simp add: isCancelled_def)

lemma show_nat_digits: "show_nat 2 = ''2''" "show_nat 5 = ''5''"
  by code_simp+

lemma process_question_answers:
  assumes "aq_events rq n = InferenceAnswers response" "mr_bestPractices response = Some bps"
    and "\<not> (prefix ''image/'' ft \<and> \<not> prefix ''data:'' fc)"
    and "\<not> isCancelled rq n"
  shows "\<exists>a w'. process_question rq fc ft tot p q r n w = Inr (r @ [a], Suc n, w') \<and>
           storedResults w' = storedResults w \<and>
           analysisStatus (workItem w') = analysisStatus (workItem w)"
  using assms
  by (auto simp: process_question_def analyzeQuestion_def parseModelResponse_def Let_def
      emitAnalysisProgress_def updateWorkItem_def)

lemma process_question_fails:
  assumes "aq_events rq n = InferenceFails message" "aq_workItem rq = Present wi" "r \<noteq> []"
    and "\<not> (prefix ''image/'' ft \<and> \<not> prefix ''data:'' fc)"
    and "\<not> isCancelled rq n"
  shows "\<exists>w'. process_question rq fc ft tot p q r n w =
           Inl (Returned \<lparr> an_results = r, an_isCancelled = False,
                           an_error = Some (question_error message q n tot),
                           an_fileId = Some (wi_fileId wi) \<rparr>, w') \<and>
           analysisStatus (workItem w') = PARTIAL \<and>
           analysisProgress (workItem w') = round_percent n tot \<and>
           analysisError (workItem w') = Some (question_error message q n tot) \<and>
           analysisPartialResults (workItem w') \<and>
           storedResults w' = storedResults w @ [r] \<and>
           analysisEvents w' = analysisEvents w @ [(n, tot, p, title q)]"
  using assms
  by (auto simp: process_question_def analyzeQuestion_def Let_def store_partial_def
      emitAnalysisProgress_def updateWorkItem_def storeAnalysisResults_def)

text \<open>
  Claim C2. In a run over five question groups (however they are spread over the selected
  pillars) in which the first two inference calls succeed, no cancellation is requested
  meanwhile, and the third inference call throws, \<open>analyze\<close>
  returns two results and an error text that names the pillar and title of the third
  question and says that 2 questions were analyzed out of 5; the last progress event has
  \<open>processedQuestions = 2\<close> of 5; the two results are stored and the work item is marked
  \<open>PARTIAL\<close> with progress 40 and the same error text.
\<close>

theorem analyze_third_of_five_fails:
  assumes "truthy (aq_userId rq)" "aq_fileContent rq = Inr (fileContent, fileType)"
    and "\<not> (prefix ''image/'' fileType \<and> \<not> prefix ''data:'' fileContent)"
    and "aq_workItem rq = Present item" "aq_bestPractices rq = Inr allBestPractices"
    and "concat (map (\<lambda>p. map (Pair p) (retrieveBestPractices allBestPractices p))
                   (aq_selectedPillars rq)) =
           [(p1, q1), (p2, q2), (p3, q3), (p4, q4), (p5, q5)]"
    and "aq_events rq 0 = InferenceAnswers response1" "mr_bestPractices response1 = Some bps1"
    and "aq_events rq 1 = InferenceAnswers response2" "mr_bestPractices response2 = Some bps2"
    and "aq_events rq 2 = InferenceFails message"
    and "\<not> aq_cancelRequested rq 0" "\<not> aq_cancelRequested rq 1"
    and "err = ''Error: '' @ message @ ''. Error analyzing question '' @ [CHR 0x22] @ pillar q3
                 @ '' - '' @ title q3 @ [CHR 0x22]
                 @ ''. Analysis stopped, 2 questions where analyzed out of 5.''"
  shows "\<exists>res w'. analyze rq w = (Returned res, w') \<and>
           length (an_results res) = 2 \<and> \<not> an_isCancelled res \<and> an_error res = Some err \<and>
           analysisStatus (workItem w') = PARTIAL \<and> analysisProgress (workItem w') = 40 \<and>
           analysisError (workItem w') = Some err \<and>
           storedResults w' = storedResults w @ [an_results res] \<and>
           last (analysisEvents w') = (2, 5, p3, title q3)"
proof -
  let ?w0 = "updateWorkItem (\<lambda>i. i\<lparr>analysisStatus := IN_PROGRESS, analysisProgress := 0\<rparr>) w"
  let ?run = "flat_loop rq fileContent fileType 5"
  let ?step = "process_question rq fileContent fileType 5"
  have nc: "\<not> isCancelled rq 0" "\<not> isCancelled rq 1" "\<not> isCancelled rq 2"
    using assms(12,13) isCancelled_Suc [of rq 0] isCancelled_Suc [of rq 1]
    by (simp_all add: numeral_2_eq_2)
  from process_question_answers [OF assms(7,8,3) nc(1), of 5 p1 q1 "[]" ?w0]
  obtain a1 w1 where s1: "?step p1 q1 [] 0 ?w0 = Inr ([a1], 1, w1)"
    and k1: "storedResults w1 = storedResults ?w0" by auto
  from process_question_answers [OF assms(9,10,3) nc(2), of 5 p2 q2 "[a1]" w1]
  obtain a2 w2 where s2: "?step p2 q2 [a1] 1 w1 = Inr ([a1, a2], 2, w2)"
    and k2: "storedResults w2 = storedResults w1" by auto
  from process_question_fails [OF assms(11,4) _ assms(3) nc(3), of "[a1, a2]" 5 p3 q3 w2]
  obtain w3 where s3: "?step p3 q3 [a1, a2] 2 w2 =
      Inl (Returned \<lparr> an_results = [a1, a2], an_isCancelled = False,
                      an_error = Some (question_error message q3 2 5),
                      an_fileId = Some (wi_fileId item) \<rparr>, w3)"
    and k3: "analysisStatus (workItem w3) = PARTIAL"
      "analysisProgress (workItem w3) = round_percent 2 5"
      "analysisError (workItem w3) = Some (question_error message q3 2 5)"
      "storedResults w3 = storedResults w2 @ [[a1, a2]]"
      "analysisEvents w3 = analysisEvents w2 @ [(2, 5, p3, title q3)]"
    by auto
  have e: "question_error message q3 2 5 = err"
    by (simp add: question_error_def show_nat_digits assms(14))
  have run: "?run [(p1, q1), (p2, q2), (p3, q3), (p4, q4), (p5, q5)] [] 0 ?w0 =
      Inl (Returned \<lparr> an_results = [a1, a2], an_isCancelled = False, an_error = Some err,
                      an_fileId = Some (wi_fileId item) \<rparr>, w3)"
    using s1 s2 s3 e by simp
  have "analyze rq w =
      (Returned \<lparr> an_results = [a1, a2], an_isCancelled = False, an_error = Some err,
                  an_fileId = Some (wi_fileId item) \<rparr>, w3)"
  proof -
    have len: "length [(p1, q1), (p2, q2), (p3, q3), (p4, q4), (p5, q5)] = 5" by simp
    note analyze_run [OF assms(1,2,5) assms(6) [symmetric], of w, unfolded len run]
    then show ?thesis by simp
  qed
  moreover have "storedResults w3 = storedResults w @ [[a1, a2]]"
    using k1 k2 k3(4) by (simp add: updateWorkItem_def)
  moreover have "round_percent 2 5 = 40" by code_simp
  ultimately show ?thesis
    using k3 e by simp
qed

lemma demo_visits:
  "concat (map (\<lambda>p. map (Pair p) (retrieveBestPractices five_questions p)) [''security'', ''reliability'']) =
     [(''security'', demo_question ''Security'' ''SEC 1'' ''sec-1'' ''Use accounts'' ''use-accounts''),
      (''security'', demo_question ''Security'' ''SEC 2'' ''sec-2'' ''Use strong sign-in'' ''use-strong-sign-in''),
      (''reliability'', demo_question ''Reliability'' ''REL 1'' ''rel-1'' ''Know quotas'' ''know-quotas''),
      (''reliability'', demo_question ''Reliability'' ''REL 2'' ''rel-2'' ''Use redundant links'' ''use-redundant-links''),
      (''reliability'', demo_question ''Reliability'' ''REL 3'' ''rel-3'' ''Segment workload'' ''segment-workload'')]"
  by code_simp

theorem analyze_third_of_five_fails_witness:
  "\<exists>res w'. analyze (demo_analysis third_fails) demo_world = (Returned res, w') \<and>
     length (an_results res) = 2 \<and> \<not> an_isCancelled res \<and>
     an_error res = Some (''Error: Throttled. Error analyzing question '' @ [CHR 0x22]
        @ ''Reliability - REL 1'' @ [CHR 0x22]
        @ ''. Analysis stopped, 2 questions where analyzed out of 5.'') \<and>
     analysisStatus (workItem w') = PARTIAL \<and> analysisProgress (workItem w') = 40 \<and>
     storedResults w' = [an_results res] \<and>
     last (analysisEvents w') = (2, 5, ''reliability'', ''REL 1'')"
proof -
  let ?rq = "demo_analysis third_fails"
  have a: "truthy (aq_userId ?rq)" "aq_fileContent ?rq = Inr (''Resources: {}'', ''text/yaml'')"
    "\<not> (prefix ''image/'' ''text/yaml'' \<and> \<not> prefix ''data:'' ''Resources: {}'')"
    "aq_workItem ?rq = Present demo_work_item" "aq_bestPractices ?rq = Inr five_questions"
    by (simp_all add: demo_analysis_def truthy_def)
  have b: "aq_selectedPillars ?rq = [''security'', ''reliability'']"
    by (simp add: demo_analysis_def)
  have c: "aq_events ?rq 0 = InferenceAnswers demo_response" "mr_bestPractices demo_response = Some [demo_bp]"
    "aq_events ?rq 1 = InferenceAnswers demo_response" "aq_events ?rq 2 = InferenceFails ''Throttled''"
    "\<not> aq_cancelRequested ?rq 0" "\<not> aq_cancelRequested ?rq 1"
    by (simp_all add: demo_analysis_def third_fails_def demo_response_def)
  have d: "storedResults demo_world = []" by (simp add: demo_world_def)
  from analyze_third_of_five_fails
      [OF a(1,2,3,4,5) demo_visits [folded b] c(1,2,3,2,4,5,6) refl, of demo_world]
  obtain res w' where "analyze ?rq demo_world = (Returned res, w')"
    "length (an_results res) = 2" "\<not> an_isCancelled res"
    "an_error res = Some (''Error: Throttled. Error analyzing question '' @ [CHR 0x22]
        @ ''Reliability - REL 1'' @ [CHR 0x22]
        @ ''. Analysis stopped, 2 questions where analyzed out of 5.'')"
    "analysisStatus (workItem w') = PARTIAL" "analysisProgress (workItem w') = 40"
    "storedResults w' = [an_results res]"
    "last (analysisEvents w') = (2, 5, ''reliability'', ''REL 1'')"
    unfolding d by (auto simp: demo_question_def)
  then show ?thesis by blast
qed

text \<open>
  What every return of \<open>analyze\<close> leaves, for a loaded work item: the results are as many
  as the questions processed, so a cancellation, which is never found at the first
  question, comes with a result and leaves the item \<open>PARTIAL\<close>, as does an error after the
  first question; an error at the first question leaves the item \<open>IN_PROGRESS\<close>.
\<close>

lemma process_question_status:
  assumes "aq_workItem rq = Present item" "analysisStatus (workItem w) = IN_PROGRESS"
    and "length r = n"
  shows "case process_question rq fc ft tot p q r n w of
           Inl (out, w') \<Rightarrow>
             (\<exists>res. out = Returned res \<and> an_results res = r \<and>
                (an_isCancelled res \<longrightarrow> r \<noteq> []) \<and>
                (an_isCancelled res \<or> an_error res \<noteq> None) \<and>
                analysisStatus (workItem w') = (if r = [] then IN_PROGRESS else PARTIAL))
         | Inr (r', n', w') \<Rightarrow> length r' = n' \<and> analysisStatus (workItem w') = IN_PROGRESS"
proof (cases "isCancelled rq n")
  case True
  then have "n \<noteq> 0" by (cases n) simp_all
  with assms(3) have "r \<noteq> []" by auto
  with True assms(1,2) show ?thesis
    by (simp add: process_question_def Let_def store_partial_def emitAnalysisProgress_def
        updateWorkItem_def storeAnalysisResults_def)
next
  case False
  with assms show ?thesis
    by (auto simp: process_question_def analyzeQuestion_def Let_def store_partial_def
        emitAnalysisProgress_def updateWorkItem_def storeAnalysisResults_def
        split: question_events.splits sum.splits)
qed

lemma flat_loop_status:
  assumes "aq_workItem rq = Present item" "analysisStatus (workItem w) = IN_PROGRESS"
    and "length r = n"
  shows "case flat_loop rq fc ft tot vs r n w of
           Inl (out, w') \<Rightarrow>
             (\<exists>res. out = Returned res \<and>
                (an_isCancelled res \<longrightarrow> an_results res \<noteq> []) \<and>
                (an_isCancelled res \<or> an_error res \<noteq> None) \<and>
                analysisStatus (workItem w') = (if an_results res = [] then IN_PROGRESS else PARTIAL))
         | Inr (r', n', w') \<Rightarrow> analysisStatus (workItem w') = IN_PROGRESS"
  using assms(2,3)
proof (induction vs arbitrary: r n w)
  case Nil
  then show ?case by simp
next
  case (Cons v vs)
  obtain p q where v: "v = (p, q)" by (cases v)
  have ps: "case process_question rq fc ft tot p q r n w of
           Inl (out, w') \<Rightarrow>
             (\<exists>res. out = Returned res \<and> an_results res = r \<and>
                (an_isCancelled res \<longrightarrow> r \<noteq> []) \<and>
                (an_isCancelled res \<or> an_error res \<noteq> None) \<and>
                analysisStatus (workItem w') = (if r = [] then IN_PROGRESS else PARTIAL))
         | Inr (r', n', w') \<Rightarrow> length r' = n' \<and> analysisStatus (workItem w') = IN_PROGRESS"
    by (rule process_question_status [OF assms(1) Cons.prems])
  show ?case
  proof (cases "process_question rq fc ft tot p q r n w")
    case (Inl e)
    obtain out w' where e: "e = (out, w')" by (cases e)
    from ps Inl e obtain res where res: "out = Returned res" "an_results res = r"
      "an_isCancelled res \<longrightarrow> r \<noteq> []" "an_isCancelled res \<or> an_error res \<noteq> None"
      "analysisStatus (workItem w') = (if r = [] then IN_PROGRESS else PARTIAL)"
      by auto
    have "flat_loop rq fc ft tot (v # vs) r n w = Inl (Returned res, w')"
      by (simp add: v Inl e res(1))
    with res(2,3,4,5) show ?thesis by simp
  next
    case (Inr s)
    obtain r1 n1 w1 where s: "s = (r1, n1, w1)" by (cases s)
    with Inr ps have k: "analysisStatus (workItem w1) = IN_PROGRESS" "length r1 = n1" by simp_all
    have "flat_loop rq fc ft tot (v # vs) r n w = flat_loop rq fc ft tot vs r1 n1 w1"
      by (simp add: v Inr s)
    with Cons.IH [OF k] show ?thesis by simp
  qed
qed

lemma analyze_exit_status:
  assumes "truthy (aq_userId rq)" "aq_fileContent rq = Inr (fileContent, fileType)"
    and "aq_workItem rq = Present item" "analyze rq w = (Returned res, w')"
  shows "(\<not> an_isCancelled res \<and> an_error res = None \<longrightarrow>
            analysisStatus (workItem w') = COMPLETED \<and> analysisProgress (workItem w') = 100) \<and>
         (an_isCancelled res \<longrightarrow> an_results res \<noteq> []) \<and>
         ((an_isCancelled res \<or> an_error res \<noteq> None) \<and> an_results res \<noteq> [] \<longrightarrow>
            analysisStatus (workItem w') = PARTIAL) \<and>
         (an_error res \<noteq> None \<and> an_results res = [] \<longrightarrow>
            analysisStatus (workItem w') = IN_PROGRESS)"
proof (cases "aq_bestPractices rq")
  case (Inl message)
  with assms(1,2,4) show ?thesis
    by (simp add: analyze_def rethrow_def Let_def)
next
  case (Inr allBestPractices)
  define vs where "vs = concat (map (\<lambda>p. map (Pair p) (retrieveBestPractices allBestPractices p))
                        (aq_selectedPillars rq))"
  define w0 where "w0 = updateWorkItem (\<lambda>i. i\<lparr>analysisStatus := IN_PROGRESS, analysisProgress := 0\<rparr>) w"
  have s0: "analysisStatus (workItem w0) = IN_PROGRESS"
    by (simp add: w0_def updateWorkItem_def)
  note run = analyze_run [OF assms(1,2) Inr vs_def, of w, folded w0_def]
  have l0: "length ([] :: AnalysisResult list) = 0" by simp
  note inv = flat_loop_status [OF assms(3) s0 l0, of fileContent fileType "length vs" vs]
  show ?thesis
  proof (cases "flat_loop rq fileContent fileType (length vs) vs [] 0 w0")
    case (Inl e)
    with run assms(4) have "e = (Returned res, w')" by simp
    with inv Inl show ?thesis by auto
  next
    case (Inr s)
    obtain r n w2 where s: "s = (r, n, w2)" by (cases s)
    with run Inr assms(3,4) show ?thesis
      by (auto simp: updateWorkItem_def storeAnalysisResults_def)
  qed
qed

lemma demo_first_error:
  "question_error ''Throttled'' (demo_question ''Security'' ''SEC 1'' ''sec-1'' ''Use accounts'' ''use-accounts'') 0
     (Suc (Suc (Suc (Suc (Suc 0))))) =
     ''Error: Throttled. Error analyzing question '' @ [CHR 0x22] @ ''Security - SEC 1'' @ [CHR 0x22]
       @ ''. Analysis stopped, 0 questions where analyzed out of 5.''"
  by code_simp

text \<open>
  Claim C1, at an input where the code leaves the work item \<open>IN_PROGRESS\<close>. The inference
  call for the first of the five questions throws: \<open>analyze\<close> returns the error with no
  result, stores nothing, and the work item, marked \<open>IN_PROGRESS\<close> at the start, is written
  no more (the update in the \<open>catch\<close> is guarded by \<open>results.length > 0\<close>, and no path sets
  \<open>FAILED\<close>).
\<close>

theorem analyze_first_question_fails:
  "fst (analyze (demo_analysis first_fails) demo_world) =
     Returned \<lparr> an_results = [], an_isCancelled = False,
                an_error = Some (''Error: Throttled. Error analyzing question '' @ [CHR 0x22]
                   @ ''Security - SEC 1'' @ [CHR 0x22]
                   @ ''. Analysis stopped, 0 questions where analyzed out of 5.''),
                an_fileId = Some ''f1'' \<rparr> \<and>
   analysisStatus (workItem (snd (analyze (demo_analysis first_fails) demo_world))) = IN_PROGRESS \<and>
   storedResults (snd (analyze (demo_analysis first_fails) demo_world)) = []"
proof -
  let ?rq = "demo_analysis first_fails"
  have a: "truthy (aq_userId ?rq)" "aq_fileContent ?rq = Inr (''Resources: {}'', ''text/yaml'')"
    "aq_bestPractices ?rq = Inr five_questions"
    by (simp_all add: demo_analysis_def truthy_def)
  have b: "aq_selectedPillars ?rq = [''security'', ''reliability'']"
    by (simp add: demo_analysis_def)
  have c: "aq_events ?rq 0 = InferenceFails ''Throttled''" "aq_workItem ?rq = Present demo_work_item"
    by (simp_all add: demo_analysis_def first_fails_def)
  show ?thesis
    unfolding analyze_run [OF a demo_visits [folded b, symmetric]]
    by (simp add: process_question_def c Let_def store_partial_def emitAnalysisProgress_def
        updateWorkItem_def demo_work_item_def demo_world_def analyzeQuestion_def
        demo_first_error)
qed
section \<open>The cleanup of JSON text: proofs\<close>

lemma space_not_quote [simp]: "\<not> is_space (CHR 0x22)" "is_space CHR '' ''"
  by (simp_all add: is_space_def)

subsection \<open>Collapsing white space\<close>

lemma collapse_head:
  "replace_space_runs '' '' s = d # r \<Longrightarrow> is_space d \<Longrightarrow> d = CHR '' '' \<and> s \<noteq> [] \<and> is_space (hd s)"
  by (cases s) (auto split: if_splits)

lemma collapse_tight: "tight (replace_space_runs '' '' s)"
proof (induction "'' ''" s rule: replace_space_runs.induct)
  case 1
  show ?case by simp
next
  case (2 c cs)
  show ?case
  proof (cases "is_space c")
    case True
    let ?r = "dropWhile is_space cs"
    from True 2 have t: "tight (replace_space_runs '' '' ?r)" by simp
    have "\<not> is_space d" if "replace_space_runs '' '' ?r = d # ds" for d ds
    proof
      assume "is_space d"
      from collapse_head [OF that this] have "?r \<noteq> []" "is_space (hd ?r)" by auto
      with hd_dropWhile [of is_space cs] show False by simp
    qed
    with True t show ?thesis by (auto split: list.splits)
  next
    case False
    with 2 show ?thesis by simp
  qed
qed

lemma collapse_fixed: "tight s \<Longrightarrow> replace_space_runs '' '' s = s"
proof (induction s)
  case Nil
  show ?case by simp
next
  case (Cons c cs)
  then show ?case by (cases cs) auto
qed


subsection \<open>Deleting white space\<close>

lemma deletes_refl: "deletes s s"
  by (induction s) (auto intro: deletes.intros)

lemma deletes_Nil_left: "deletes [] s' \<Longrightarrow> s' = []"
  by (erule deletes.cases) auto

lemma deletes_Cons_nonspace:
  "deletes (e # r) s' \<Longrightarrow> \<not> is_space e \<Longrightarrow> \<exists>r'. s' = e # r' \<and> deletes r r'"
  by (erule deletes.cases) auto

lemma deletes_to_space:
  "deletes s (d # r') \<Longrightarrow> is_space d \<Longrightarrow> s \<noteq> [] \<and> is_space (hd s)"
  by (erule deletes.cases) auto

lemma deletes_trans: "deletes a b \<Longrightarrow> deletes b c \<Longrightarrow> deletes a c"
proof (induction arbitrary: c rule: deletes.induct)
  case deletes_Nil
  then show ?case by simp
next
  case (deletes_keep s s' x)
  from deletes_keep.prems show ?case
  proof (cases rule: deletes.cases)
    case (deletes_keep t')
    with deletes_keep.IH show ?thesis by (auto intro: deletes.intros)
  next
    case (deletes_drop)
    with deletes_keep.IH show ?thesis by (auto intro: deletes.intros)
  qed
next
  case (deletes_drop x s s')
  then show ?case by (auto intro: deletes.intros)
qed

lemma deletes_prepend: "list_all is_space w \<Longrightarrow> deletes xs ys \<Longrightarrow> deletes (w @ xs) ys"
  by (induction w) (auto intro: deletes.intros)

lemma deletes_dropWhile: "deletes xs ys \<Longrightarrow> dropWhile is_space cs = xs \<Longrightarrow> deletes cs ys"
proof -
  assume d: "deletes xs ys" and x: "dropWhile is_space cs = xs"
  have "list_all is_space (takeWhile is_space cs)"
    by (auto simp: list_all_iff dest: set_takeWhileD)
  from deletes_prepend [OF this d] x show ?thesis
    by (metis takeWhile_dropWhile_id)
qed

lemma deletes_set: "deletes s s' \<Longrightarrow> set s' \<subseteq> set s"
  by (induction rule: deletes.induct) auto

lemma deletes_tight:
  assumes "deletes s s'" "tight s"
  shows "tight s'"
  using assms
proof (induction rule: deletes.induct)
  case deletes_Nil
  show ?case by simp
next
  case (deletes_keep s s' c)
  then have t: "tight s'" by simp
  have "\<not> is_space d" if "is_space c" "s' = d # ds" for d ds
  proof -
    from deletes_keep.hyps that(2) have "s \<noteq> []" by (auto dest: deletes_Nil_left)
    then obtain e r where s: "s = e # r" by (cases s) auto
    with deletes_keep.prems that(1) have e: "\<not> is_space e" by simp
    from deletes_Cons_nonspace [OF deletes_keep.hyps [unfolded s] e] that(2) e show ?thesis by auto
  qed
  with t deletes_keep.prems show ?case by (auto split: list.splits)
next
  case (deletes_drop c s s')
  then show ?case by simp
qed

lemma deletes_hd:
  "deletes s s' \<Longrightarrow> s \<noteq> [] \<Longrightarrow> \<not> is_space (hd s) \<Longrightarrow> s' \<noteq> [] \<and> hd s' = hd s"
  by (erule deletes.cases) auto

lemma deletes_last:
  assumes "deletes s s'" "s \<noteq> []" "\<not> is_space (last s)"
  shows "s' \<noteq> [] \<and> last s' = last s"
  using assms
proof (induction rule: deletes.induct)
  case deletes_Nil
  then show ?case by simp
next
  case (deletes_keep s s' c)
  then show ?case by (cases "s = []") (auto dest: deletes_Nil_left)
next
  case (deletes_drop c s s')
  then show ?case by (cases "s = []") auto
qed

lemma deletes_braced:
  assumes "deletes s s'" "braced s"
  shows "braced s'"
proof -
  have b: "\<not> is_space CHR ''{''" "\<not> is_space CHR ''}''" by (simp_all add: is_space_def)
  from deletes_set [OF assms(1)] have sub: "set s' \<subseteq> set s" .
  show ?thesis
  proof (cases "CHR ''{'' \<notin> set s \<or> CHR ''}'' \<notin> set s")
    case True
    with sub show ?thesis by (auto simp: braced_def)
  next
    case False
    with assms(2) have "s \<noteq> []" "hd s = CHR ''{''" "last s = CHR ''}''"
      by (auto simp: braced_def)
    with deletes_hd [OF assms(1)] deletes_last [OF assms(1)] b show ?thesis
      by (simp add: braced_def)
  qed
qed

lemma deletes_no_space_before:
  assumes "deletes s s'" "tight s" "no_space_before t s"
  shows "no_space_before t s'"
  using assms
proof (induction rule: deletes.induct)
  case deletes_Nil
  show ?case by simp
next
  case (deletes_keep s s' c)
  have sub: "no_space_before t s"
    using deletes_keep.prems(2) by (cases s) auto
  with deletes_keep have ih: "no_space_before t s'" by simp
  show ?case
  proof (cases s')
    case Nil
    then show ?thesis by simp
  next
    case (Cons d ds)
    have "\<not> (is_space c \<and> d = t)"
    proof
      assume a: "is_space c \<and> d = t"
      from deletes_keep.hyps Cons have "s \<noteq> []" by (auto dest: deletes_Nil_left)
      then obtain e r where s: "s = e # r" by (cases s) auto
      with deletes_keep.prems(1) a have e: "\<not> is_space e" by simp
      from deletes_Cons_nonspace [OF deletes_keep.hyps [unfolded s] e] Cons have "d = e" by auto
      with deletes_keep.prems(2) s a show False by simp
    qed
    with ih Cons show ?thesis by simp
  qed
next
  case (deletes_drop c s s')
  have "no_space_before t s"
    using deletes_drop.prems(2) by (cases s) auto
  with deletes_drop show ?case by simp
qed

lemma no_space_after_tail:
  "no_space_after g t prev (c # s) \<Longrightarrow> no_space_after g t (Some c) s"
  by (cases s) auto

lemma deletes_no_space_after:
  assumes "deletes s s'" "tight s" "no_space_after g t prev s"
    and "prev = Some (CHR 0x22) \<longrightarrow> prev' = Some (CHR 0x22)"
  shows "no_space_after g t prev' s'"
  using assms
proof (induction arbitrary: prev prev' rule: deletes.induct)
  case deletes_Nil
  show ?case by simp
next
  case (deletes_keep s s' c)
  from deletes_keep.prems(1) have ts: "tight s" by simp
  from no_space_after_tail [OF deletes_keep.prems(2)] have ns: "no_space_after g t (Some c) s" .
  from deletes_keep.IH [OF ts ns] have ih: "no_space_after g t (Some c) s'" by simp
  show ?case
  proof (cases s')
    case Nil
    then show ?thesis by simp
  next
    case (Cons d ds)
    have "g \<and> prev' = Some (CHR 0x22)" if a: "c = t" "is_space d"
    proof -
      from deletes_to_space [OF deletes_keep.hyps [unfolded Cons] a(2)]
      obtain x r where s: "s = x # r" "is_space x" by (cases s) auto
      with deletes_keep.prems(2) a(1) have "g \<and> prev = Some (CHR 0x22)" by simp
      with deletes_keep.prems(3) show ?thesis by simp
    qed
    with ih Cons show ?thesis by simp
  qed
next
  case (deletes_drop c s s')
  from deletes_drop.prems(1) have ts: "tight s" by simp
  from no_space_after_tail [OF deletes_drop.prems(2)] have ns: "no_space_after g t (Some c) s" .
  from deletes_drop.hyps(1) have "Some c \<noteq> Some (CHR 0x22)" by auto
  with deletes_drop.IH [OF ts ns, of prev'] show ?case by simp
qed


subsection \<open>The steps delete white space\<close>

lemma remove_space_before_match:
  "is_space c \<and> (case dropWhile is_space cs of [] \<Rightarrow> False | d # ds \<Rightarrow> d = t) \<Longrightarrow>
   remove_space_before t (c # cs) = t # remove_space_before t (tl (dropWhile is_space cs))"
  by simp

lemma remove_space_before_skip:
  "\<not> (is_space c \<and> (case dropWhile is_space cs of [] \<Rightarrow> False | d # ds \<Rightarrow> d = t)) \<Longrightarrow>
   remove_space_before t (c # cs) = c # remove_space_before t cs"
  by auto

lemma remove_space_after_match:
  "c = t \<and> \<not> (g \<and> prev = Some (CHR 0x22)) \<and> takeWhile is_space cs \<noteq> [] \<Longrightarrow>
   remove_space_after g t prev (c # cs) =
     t # remove_space_after g t (Some (last (takeWhile is_space cs))) (dropWhile is_space cs)"
  by simp

lemma remove_space_after_skip:
  "\<not> (c = t \<and> \<not> (g \<and> prev = Some (CHR 0x22)) \<and> takeWhile is_space cs \<noteq> []) \<Longrightarrow>
   remove_space_after g t prev (c # cs) = c # remove_space_after g t (Some c) cs"
  by auto

declare remove_space_before.simps(2) [simp del] remove_space_after.simps(2) [simp del]

lemma remove_space_before_deletes: "deletes s (remove_space_before t s)"
proof (induction t s rule: remove_space_before.induct)
  case (1 t)
  show ?case by (simp add: deletes.intros)
next
  case (2 t c cs)
  show ?case
  proof (cases "is_space c \<and> (case dropWhile is_space cs of [] \<Rightarrow> False | d # ds \<Rightarrow> d = t)")
    case True
    then obtain ds where d: "dropWhile is_space cs = t # ds"
      by (auto split: list.splits)
    from 2(1) [OF True] d have "deletes ds (remove_space_before t ds)" by simp
    then have "deletes (t # ds) (t # remove_space_before t ds)" by (rule deletes_keep)
    then have "deletes cs (t # remove_space_before t ds)" using d by (rule deletes_dropWhile)
    with True d show ?thesis by (simp add: remove_space_before_match deletes_drop)
  next
    case False
    with 2(2) [OF False] show ?thesis by (simp add: remove_space_before_skip deletes_keep)
  qed
qed

lemma remove_space_after_deletes: "deletes s (remove_space_after g t prev s)"
proof (induction g t prev s rule: remove_space_after.induct)
  case (1 g t prev)
  show ?case by (simp add: deletes.intros)
next
  case (2 g t prev c cs)
  show ?case
  proof (cases "c = t \<and> \<not> (g \<and> prev = Some (CHR 0x22)) \<and> takeWhile is_space cs \<noteq> []")
    case True
    from 2(1) [OF True]
    have "deletes cs (remove_space_after g t (Some (last (takeWhile is_space cs))) (dropWhile is_space cs))"
      by (rule deletes_dropWhile) simp
    then have "deletes (t # cs)
        (t # remove_space_after g t (Some (last (takeWhile is_space cs))) (dropWhile is_space cs))"
      by (rule deletes_keep)
    with True show ?thesis unfolding remove_space_after_match [OF True] by simp
  next
    case False
    from 2(2) [OF False] show ?thesis by (simp add: remove_space_after_skip [OF False] deletes_keep)
  qed
qed

subsection \<open>A step leaves nothing to do for itself\<close>

lemma tight_drop: "tight s \<Longrightarrow> tight (drop n s)"
proof (induction s arbitrary: n)
  case Nil
  show ?case by simp
next
  case (Cons c cs)
  then show ?case by (cases n) auto
qed

lemma tight_dropWhile: "tight s \<Longrightarrow> tight (dropWhile P s)"
  by (simp add: dropWhile_eq_drop tight_drop)

lemma tight_after_space:
  "tight (c # cs) \<Longrightarrow> is_space c \<Longrightarrow> dropWhile is_space cs = cs"
  by (cases cs) auto

lemma remove_space_before_fixed:
  assumes "tight s" "no_space_before t s"
  shows "remove_space_before t s = s"
  using assms
proof (induction s)
  case Nil
  show ?case by simp
next
  case (Cons c cs)
  from Cons.prems have sub: "tight cs" "no_space_before t cs"
    by (simp, cases cs) auto
  have "\<not> (is_space c \<and> (case dropWhile is_space cs of [] \<Rightarrow> False | d # ds \<Rightarrow> d = t))"
  proof
    assume a: "is_space c \<and> (case dropWhile is_space cs of [] \<Rightarrow> False | d # ds \<Rightarrow> d = t)"
    with tight_after_space [OF Cons.prems(1)] obtain ds where "cs = t # ds"
      by (auto split: list.splits)
    with Cons.prems(2) a show False by simp
  qed
  from remove_space_before_skip [OF this] Cons.IH [OF sub] show ?case by simp
qed

lemma remove_space_before_established:
  assumes "tight s" "\<not> is_space t"
  shows "no_space_before t (remove_space_before t s)"
  using assms
proof (induction t s rule: remove_space_before.induct)
  case (1 t)
  show ?case by simp
next
  case (2 t c cs)
  from 2(3) have tc: "tight cs" by simp
  show ?case
  proof (cases "is_space c \<and> (case dropWhile is_space cs of [] \<Rightarrow> False | d # ds \<Rightarrow> d = t)")
    case True
    have "tight (tl (dropWhile is_space cs))"
      using tight_drop [OF tight_dropWhile [OF tc], of 1 is_space] by (simp add: drop_Suc)
    from 2(1) [OF True this 2(4)] have ih: "no_space_before t (remove_space_before t (tl (dropWhile is_space cs)))" .
    then have "no_space_before t (t # remove_space_before t (tl (dropWhile is_space cs)))"
      using 2(4) by (cases "remove_space_before t (tl (dropWhile is_space cs))") auto
    then show ?thesis by (simp add: remove_space_before_match [OF True])
  next
    case False
    from 2(2) [OF False tc 2(4)] have ih: "no_space_before t (remove_space_before t cs)" .
    have "\<not> (is_space c \<and> d = t)" if r: "remove_space_before t cs = d # ds" for d ds
    proof
      assume a: "is_space c \<and> d = t"
      from r obtain e es where cs: "cs = e # es" by (cases cs) auto
      with 2(3) a have e: "\<not> is_space e" by simp
      then have "remove_space_before t (e # es) = e # remove_space_before t es"
        by (simp add: remove_space_before_skip)
      with r cs have "d = e" by simp
      with a cs e False show False by simp
    qed
    with ih have "no_space_before t (c # remove_space_before t cs)"
      by (cases "remove_space_before t cs") auto
    then show ?thesis by (simp add: remove_space_before_skip [OF False])
  qed
qed

lemma remove_space_after_fixed:
  "no_space_after g t prev s \<Longrightarrow> remove_space_after g t prev s = s"
proof (induction s arbitrary: prev)
  case Nil
  show ?case by simp
next
  case (Cons c cs)
  have "\<not> (c = t \<and> \<not> (g \<and> prev = Some (CHR 0x22)) \<and> takeWhile is_space cs \<noteq> [])"
    using Cons.prems by (cases cs) (auto split: if_splits)
  from remove_space_after_skip [OF this] Cons.IH [OF no_space_after_tail [OF Cons.prems]]
  show ?case by simp
qed

lemma remove_space_after_hd:
  "remove_space_after g t prev (c # cs) = d # ds \<Longrightarrow> d = c"
  by (cases "c = t \<and> \<not> (g \<and> prev = Some (CHR 0x22)) \<and> takeWhile is_space cs \<noteq> []")
    (simp_all add: remove_space_after_match remove_space_after_skip)

lemma remove_space_after_established:
  assumes "tight s"
    and "prev' = prev \<or> (\<exists>w. prev = Some w \<and> is_space w)"
  shows "no_space_after g t prev' (remove_space_after g t prev s)"
  using assms
proof (induction g t prev s arbitrary: prev' rule: remove_space_after.induct)
  case (1 g t prev)
  show ?case by simp
next
  case (2 g t prev c cs)
  from 2(3) have tc: "tight cs" by simp
  show ?case
  proof (cases "c = t \<and> \<not> (g \<and> prev = Some (CHR 0x22)) \<and> takeWhile is_space cs \<noteq> []")
    case True
    let ?w = "last (takeWhile is_space cs)"
    let ?rest = "dropWhile is_space cs"
    let ?X = "remove_space_after g t (Some ?w) ?rest"
    from True have "is_space ?w"
      by (metis last_in_set set_takeWhileD)
    then have "Some t = Some ?w \<or> (\<exists>w. Some ?w = Some w \<and> is_space w)" by simp
    from 2(1) [OF True tight_dropWhile [OF tc] this] have ih: "no_space_after g t (Some t) ?X" .
    have "\<not> is_space d" if x: "?X = d # ds" for d ds
    proof -
      from x obtain e es where r: "?rest = e # es" by (cases ?rest) auto
      with hd_dropWhile [of is_space cs] have "\<not> is_space e" by simp
      with remove_space_after_hd [OF x [unfolded r]] show ?thesis by simp
    qed
    with ih have "no_space_after g t prev' (t # ?X)"
      by (cases ?X) auto
    then show ?thesis by (simp add: remove_space_after_match [OF True])
  next
    case False
    let ?Y = "remove_space_after g t (Some c) cs"
    from 2(2) [OF False tc, of "Some c"] have ih: "no_space_after g t (Some c) ?Y" by simp
    have "g \<and> prev' = Some (CHR 0x22)" if y: "?Y = d # ds" and a: "c = t" "is_space d" for d ds
    proof -
      from y obtain e es where cs: "cs = e # es" by (cases cs) auto
      with remove_space_after_hd [OF y [unfolded cs]] a(2) have "is_space e" by simp
      with cs have "takeWhile is_space cs \<noteq> []" by simp
      with False a(1) have "g \<and> prev = Some (CHR 0x22)" by simp
      with 2(4) show ?thesis by auto
    qed
    with ih have "no_space_after g t prev' (c # ?Y)"
      by (cases ?Y) auto
    then show ?thesis by (simp add: remove_space_after_skip [OF False])
  qed
qed


subsection \<open>Replacing a literal\<close>

lemma js_includes_drop: "js_includes q (drop n s) \<Longrightarrow> js_includes q s"
proof (induction s arbitrary: n)
  case Nil
  then show ?case by simp
next
  case (Cons c cs)
  then show ?case by (cases n) auto
qed

lemma js_includes_skip:
  "p0 \<notin> set w \<Longrightarrow> js_includes (p0 # q') (w @ x) = js_includes (p0 # q') x"
  by (induction w) auto

lemma replace_all_fixed: "\<not> js_includes pat s \<Longrightarrow> replace_all pat rep s = s"
  by (induction s) auto

lemma prefix_replace_all:
  "p0 \<notin> set w \<Longrightarrow> prefix w (replace_all (p0 # p') (p0 # r') cs) = prefix w cs"
proof (induction w arbitrary: cs)
  case Nil
  show ?case by simp
next
  case (Cons a w)
  show ?case
  proof (cases cs)
    case Nil
    then show ?thesis by simp
  next
    case (Cons c cs')
    with Cons.prems Cons.IH [of cs'] show ?thesis by auto
  qed
qed

lemma replace_all_match:
  "pat \<noteq> [] \<and> prefix pat (c # cs) \<Longrightarrow>
   replace_all pat rep (c # cs) = rep @ replace_all pat rep (drop (length pat - 1) cs)"
  by simp

lemma replace_all_skip:
  "\<not> (pat \<noteq> [] \<and> prefix pat (c # cs)) \<Longrightarrow>
   replace_all pat rep (c # cs) = c # replace_all pat rep cs"
  by auto

declare replace_all.simps(2) [simp del]

lemma replace_all_no_occurrence:
  assumes "p0 \<notin> set q'" "p0 \<notin> set r'" "\<not> prefix q' r'" "\<not> prefix r' q'"
    and "p0 # q' = p0 # p' \<or> \<not> js_includes (p0 # q') s"
  shows "\<not> js_includes (p0 # q') (replace_all (p0 # p') (p0 # r') s)"
  using assms(5)
proof (induction "p0 # p'" "p0 # r'" s rule: replace_all.induct)
  case 1
  show ?case by simp
next
  case (2 c cs)
  show ?case
  proof (cases "p0 # p' \<noteq> [] \<and> prefix (p0 # p') (c # cs)")
    case True
    let ?rest = "drop (length (p0 # p') - 1) cs"
    let ?X = "replace_all (p0 # p') (p0 # r') ?rest"
    have "p0 # q' = p0 # p' \<or> \<not> js_includes (p0 # q') ?rest"
      using 2(3) js_includes_drop [of "p0 # q'" "length (p0 # p') - 1" cs] by auto
    from 2(1) [OF True this] have ih: "\<not> js_includes (p0 # q') ?X" .
    have "\<not> prefix q' (r' @ ?X)"
      using assms(3,4) prefix_same_cases [of q' "r' @ ?X" r'] by auto
    with ih assms(2) have "\<not> js_includes (p0 # q') ((p0 # r') @ ?X)"
      by (simp add: js_includes_skip)
    then show ?thesis unfolding replace_all_match [OF True] .
  next
    case False
    let ?Y = "replace_all (p0 # p') (p0 # r') cs"
    have "p0 # q' = p0 # p' \<or> \<not> js_includes (p0 # q') cs"
      using 2(3) by auto
    from 2(2) [OF False this] have ih: "\<not> js_includes (p0 # q') ?Y" .
    have "\<not> prefix (p0 # q') (c # cs)"
      using 2(3) False by auto
    then have "\<not> prefix (p0 # q') (c # ?Y)"
      using assms(1) by (simp add: prefix_replace_all)
    with ih have "\<not> js_includes (p0 # q') (c # ?Y)" by simp
    then show ?thesis unfolding replace_all_skip [OF False] .
  qed
qed

subsection \<open>Strings of the same shape\<close>

lemma plain_simps [simp]:
  "plain CHR ''T''" "plain CHR ''t''" "plain CHR ''F''" "plain CHR ''f''"
  by (simp_all add: plain_def is_space_def)

lemma same_shape_refl: "same_shape s s"
  by (simp add: same_shape_def list_all2_refl)

lemma replace_all_same_shape:
  assumes "same_shape pat rep"
  shows "same_shape s (replace_all pat rep s)"
  using assms
proof (induction pat rep s rule: replace_all.induct)
  case (1 pat rep)
  show ?case by (simp add: same_shape_def)
next
  case (2 pat rep c cs)
  show ?case
  proof (cases "pat \<noteq> [] \<and> prefix pat (c # cs)")
    case True
    let ?rest = "drop (length pat - 1) cs"
    from True obtain zs where zs: "c # cs = pat @ zs" by (auto simp: prefix_def)
    then have "zs = drop (length pat) (c # cs)" by simp
    also from True have "\<dots> = ?rest" by (cases pat) auto
    finally have split: "c # cs = pat @ ?rest" using zs by simp
    from 2(1) [OF True 2(3)] 2(3) have "same_shape (pat @ ?rest) (rep @ replace_all pat rep ?rest)"
      by (simp add: same_shape_def list_all2_appendI)
    then show ?thesis unfolding replace_all_match [OF True] split [symmetric] .
  next
    case False
    from 2(2) [OF False 2(3)] have "same_shape (c # cs) (c # replace_all pat rep cs)"
      by (simp add: same_shape_def)
    then show ?thesis unfolding replace_all_skip [OF False] .
  qed
qed


lemma same_shape_space:
  "a = b \<or> (plain a \<and> plain b) \<Longrightarrow> is_space a = is_space b"
  by (auto simp: plain_def)

lemma same_shape_tight: "same_shape s s' \<Longrightarrow> tight s \<Longrightarrow> tight s'"
  unfolding same_shape_def
proof (induction rule: list_all2_induct)
  case Nil
  show ?case by simp
next
  case (Cons a s b s')
  from Cons.prems have ts: "tight s" by simp
  then have t': "tight s'" by (rule Cons.IH)
  note ab = same_shape_space [OF Cons.hyps(1)]
  have c1: "b = CHR '' ''" if "is_space b"
  proof -
    from that ab have "is_space a" by simp
    with Cons.prems have "a = CHR '' ''" by simp
    with Cons.hyps(1) show ?thesis by (auto simp: plain_def)
  qed
  have c2: "case s' of [] \<Rightarrow> True | d # ds \<Rightarrow> \<not> is_space d" if "is_space b"
  proof (cases s')
    case Nil
    then show ?thesis by simp
  next
    case (Cons y ys)
    with Cons.hyps(2) obtain x xs where s: "s = x # xs" and xy: "x = y \<or> (plain x \<and> plain y)"
      by (cases s) auto
    from that ab have "is_space a" by simp
    with Cons.prems s have "\<not> is_space x" by simp
    with same_shape_space [OF xy] Cons show ?thesis by simp
  qed
  from t' c1 c2 show ?case by simp
qed


lemma same_shape_no_space_before:
  assumes "same_shape s s'" "no_space_before t s" "\<not> plain t"
  shows "no_space_before t s'"
  using assms(1,2) unfolding same_shape_def
proof (induction rule: list_all2_induct)
  case Nil
  show ?case by simp
next
  case (Cons a s b s')
  have sub: "no_space_before t s" using Cons.prems by (cases s) auto
  show ?case
  proof (cases s')
    case Nil
    then show ?thesis by simp
  next
    case (Cons y ys)
    with Cons.hyps(2) obtain x xs where s: "s = x # xs" and xy: "x = y \<or> (plain x \<and> plain y)"
      by (cases s) auto
    from Cons.hyps(1) have ab: "is_space a = is_space b" by (auto simp: plain_def)
    from xy assms(3) have "x = t \<longleftrightarrow> y = t" by auto
    with Cons.prems s ab have "\<not> (is_space b \<and> y = t)" by simp
    with Cons.IH [OF sub] Cons show ?thesis by simp
  qed
qed

lemma same_shape_no_space_after:
  assumes "same_shape s s'" "no_space_after g t prev s" "\<not> plain t"
    and "prev = Some (CHR 0x22) \<longrightarrow> prev' = Some (CHR 0x22)"
  shows "no_space_after g t prev' s'"
  using assms(1,2,4) unfolding same_shape_def
proof (induction arbitrary: prev prev' rule: list_all2_induct)
  case Nil
  show ?case by simp
next
  case (Cons a s b s')
  from Cons.hyps(1) assms(3) have ab: "a = t \<longleftrightarrow> b = t" "a = CHR 0x22 \<longrightarrow> b = CHR 0x22"
    by (auto simp: plain_def)
  from no_space_after_tail [OF Cons.prems(1)] have sub: "no_space_after g t (Some a) s" .
  from Cons.IH [OF sub, of "Some b"] ab(2) have ih: "no_space_after g t (Some b) s'" by simp
  show ?case
  proof (cases s')
    case Nil
    then show ?thesis by simp
  next
    case (Cons y ys)
    with Cons.hyps(2) obtain x xs where s: "s = x # xs" and xy: "x = y \<or> (plain x \<and> plain y)"
      by (cases s) auto
    from xy have "is_space x = is_space y" by (auto simp: plain_def)
    with Cons.prems(1,2) s ab(1) have "b = t \<and> is_space y \<longrightarrow> g \<and> prev' = Some (CHR 0x22)"
      by auto
    with ih Cons show ?thesis by simp
  qed
qed

lemma same_shape_braced:
  assumes "same_shape s s'" "braced s"
  shows "braced s'"
proof -
  have np: "\<not> plain CHR ''{''" "\<not> plain CHR ''}''" by (simp_all add: plain_def)
  from assms(1) have l: "length s = length s'"
    by (simp add: same_shape_def list_all2_lengthD)
  from assms(1) have n: "\<And>i. i < length s \<Longrightarrow> s ! i = s' ! i \<or> (plain (s ! i) \<and> plain (s' ! i))"
    by (simp add: same_shape_def list_all2_conv_all_nth)
  have mem: "c \<in> set s' \<Longrightarrow> c \<in> set s" if "\<not> plain c" for c
    using n l that by (metis in_set_conv_nth)
  show ?thesis
  proof (cases "CHR ''{'' \<notin> set s \<or> CHR ''}'' \<notin> set s")
    case True
    with mem np show ?thesis by (auto simp: braced_def)
  next
    case False
    with assms(2) have b: "s \<noteq> []" "hd s = CHR ''{''" "last s = CHR ''}''"
      by (auto simp: braced_def)
    with l have ne: "s' \<noteq> []" by auto
    from b n [of 0] np have "hd s' = CHR ''{''"
      using ne by (auto simp: hd_conv_nth)
    moreover from b n [of "length s - 1"] np l have "last s' = CHR ''}''"
      using ne by (auto simp: last_conv_nth)
    ultimately show ?thesis using ne by (simp add: braced_def)
  qed
qed

subsection \<open>The outermost braces\<close>

lemma takeWhile_until: "c \<notin> set ys \<Longrightarrow> takeWhile (\<lambda>x. x \<noteq> c) (ys @ c # zs) = ys"
  by (induction ys) auto

lemma index_of_first: "c \<notin> set ys \<Longrightarrow> index_of c (ys @ c # zs) = Some (length ys)"
  by (simp add: index_of_def takeWhile_until)

lemma last_index_of_last: "c \<notin> set zs \<Longrightarrow> last_index_of c (ys @ c # zs) = Some (length ys)"
proof -
  assume n: "c \<notin> set zs"
  then have "takeWhile (\<lambda>x. x \<noteq> c) (rev zs @ c # rev ys) = rev zs"
    by (intro takeWhile_until) simp
  then show ?thesis by (simp add: last_index_of_def)
qed

lemma braced_trim_to_braces: "braced (trim_to_braces s)"
proof (cases "CHR ''{'' \<in> set s \<and> CHR ''}'' \<in> set s")
  case False
  then have "trim_to_braces s = s"
    by (auto simp: trim_to_braces_def index_of_def last_index_of_def)
  with False show ?thesis by (auto simp: braced_def)
next
  case True
  then obtain ys zs where f: "s = ys @ CHR ''{'' # zs" "CHR ''{'' \<notin> set ys"
    by (meson split_list_first)
  from True obtain ys' zs' where l: "s = ys' @ CHR ''}'' # zs'" "CHR ''}'' \<notin> set zs'"
    by (meson split_list_last)
  have i: "index_of CHR ''{'' s = Some (length ys)"
    unfolding f(1) using f(2) by (rule index_of_first)
  have j: "last_index_of CHR ''}'' s = Some (length ys')"
    unfolding l(1) using l(2) by (rule last_index_of_last)
  have t: "trim_to_braces s = substring (length ys) (Suc (length ys')) s"
    by (simp add: trim_to_braces_def i j)
  from f(1) l(1) have e: "ys @ CHR ''{'' # zs = ys' @ CHR ''}'' # zs'" by simp
  then consider m where "ys' = ys @ CHR ''{'' # m" "zs = m @ CHR ''}'' # zs'"
    | m where "ys = ys' @ CHR ''}'' # m" "zs' = m @ CHR ''{'' # zs"
    by (auto simp: append_eq_append_conv2 Cons_eq_append_conv append_eq_Cons_conv)
  then show ?thesis
  proof cases
    case 1
    have "substring (length ys) (Suc (length ys')) s = CHR ''{'' # m @ [CHR ''}'']"
      unfolding f(1) 1 by (simp add: substring_def)
    with t show ?thesis by (simp add: braced_def)
  next
    case 2
    have "substring (length ys) (Suc (length ys')) s = m"
      unfolding l(1) 2 by (simp add: substring_def)
    with t f(2) 2(1) show ?thesis by (simp add: braced_def)
  qed
qed

lemma trim_to_braces_fixed:
  assumes "braced s"
  shows "trim_to_braces s = s"
proof (cases "CHR ''{'' \<in> set s \<and> CHR ''}'' \<in> set s")
  case False
  then show ?thesis
    by (auto simp: trim_to_braces_def index_of_def last_index_of_def)
next
  case True
  with assms have b: "s \<noteq> []" "hd s = CHR ''{''" "last s = CHR ''}''"
    by (auto simp: braced_def)
  from b(1,2) have i: "index_of CHR ''{'' s = Some 0"
    by (cases s) (auto simp: index_of_def)
  from b(1,3) have "takeWhile (\<lambda>x. x \<noteq> CHR ''}'') (rev s) = []"
    by (cases s rule: rev_cases) auto
  with True have j: "last_index_of CHR ''}'' s = Some (length s - Suc 0)"
    by (simp add: last_index_of_def)
  from b(1) have "Suc (length s - Suc 0) = length s" by (cases s) auto
  then show ?thesis by (simp add: trim_to_braces_def i j substring_def)
qed

subsection \<open>Collapsing white space keeps the braces\<close>

lemma dropWhile_space_set: "\<not> is_space c \<Longrightarrow> c \<in> set (dropWhile is_space cs) \<longleftrightarrow> c \<in> set cs"
  by (induction cs) auto

lemma dropWhile_last:
  "cs \<noteq> [] \<Longrightarrow> \<not> P (last cs) \<Longrightarrow> dropWhile P cs \<noteq> [] \<and> last (dropWhile P cs) = last cs"
  by (induction cs) (auto split: if_splits)

lemma collapse_set:
  "\<not> is_space c \<Longrightarrow> c \<in> set (replace_space_runs '' '' s) \<longleftrightarrow> c \<in> set s"
proof (induction "'' ''" s rule: replace_space_runs.induct)
  case 1
  show ?case by simp
next
  case (2 d cs)
  show ?case
  proof (cases "is_space d")
    case True
    with 2 dropWhile_space_set [of c cs] show ?thesis by auto
  next
    case False
    with 2 show ?thesis by auto
  qed
qed

lemma collapse_hd:
  "s \<noteq> [] \<Longrightarrow> \<not> is_space (hd s) \<Longrightarrow>
   replace_space_runs '' '' s \<noteq> [] \<and> hd (replace_space_runs '' '' s) = hd s"
  by (cases s) auto

lemma collapse_last:
  "s \<noteq> [] \<Longrightarrow> \<not> is_space (last s) \<Longrightarrow>
   replace_space_runs '' '' s \<noteq> [] \<and> last (replace_space_runs '' '' s) = last s"
proof (induction "'' ''" s rule: replace_space_runs.induct)
  case 1
  then show ?case by simp
next
  case (2 d cs)
  show ?case
  proof (cases "is_space d")
    case True
    with 2(3,4) have cs: "cs \<noteq> []" "\<not> is_space (last cs)" by (auto split: if_splits)
    from dropWhile_last [of cs is_space] cs have dw: "dropWhile is_space cs \<noteq> []"
      "last (dropWhile is_space cs) = last cs" by simp_all
    from 2(1) [OF True dw(1)] dw(2) cs(2)
    have "replace_space_runs '' '' (dropWhile is_space cs) \<noteq> []"
      "last (replace_space_runs '' '' (dropWhile is_space cs)) = last cs" by simp_all
    with True cs(1) show ?thesis by simp
  next
    case False
    show ?thesis
    proof (cases cs)
      case Nil
      with False show ?thesis by simp
    next
      case (Cons e es)
      with 2(4) have "\<not> is_space (last cs)" by simp
      with 2(2) [OF False] Cons have "replace_space_runs '' '' cs \<noteq> []"
        "last (replace_space_runs '' '' cs) = last cs" by simp_all
      with False Cons show ?thesis by simp
    qed
  qed
qed

lemma brace_not_space [simp]: "\<not> is_space CHR ''{''" "\<not> is_space CHR ''}''"
  by (simp_all add: is_space_def)

lemma collapse_braced:
  assumes "braced s"
  shows "braced (replace_space_runs '' '' s)"
proof (cases "CHR ''{'' \<in> set s \<and> CHR ''}'' \<in> set s")
  case False
  then show ?thesis by (auto simp: braced_def collapse_set)
next
  case True
  with assms have b: "s \<noteq> []" "hd s = CHR ''{''" "last s = CHR ''}''"
    by (auto simp: braced_def)
  from collapse_hd [OF b(1)] collapse_last [OF b(1)] b(2,3) show ?thesis
    by (simp add: braced_def)
qed


subsection \<open>The cleanup reaches a string that it leaves alone\<close>

lemma same_shape_trans:
  assumes "same_shape a b" "same_shape b c"
  shows "same_shape a c"
  unfolding same_shape_def
  by (rule list_all2_trans [OF _ assms(1) [unfolded same_shape_def] assms(2) [unfolded same_shape_def]])
    auto

lemma after_kept:
  assumes "tight s" "deletes (remove_space_after g t None s) u" "same_shape u v" "\<not> plain t"
  shows "no_space_after g t None v"
proof -
  have e: "no_space_after g t None (remove_space_after g t None s)"
    by (rule remove_space_after_established [OF assms(1)]) simp
  have t: "tight (remove_space_after g t None s)"
    by (rule deletes_tight [OF remove_space_after_deletes assms(1)])
  have "no_space_after g t None u"
    by (rule deletes_no_space_after [OF assms(2) t e]) simp
  then show ?thesis
    by (rule same_shape_no_space_after [OF assms(3) _ assms(4)]) simp
qed

lemma before_kept:
  assumes "tight s" "deletes (remove_space_before t s) u" "same_shape u v"
    and "\<not> plain t" "\<not> is_space t"
  shows "no_space_before t v"
proof -
  have e: "no_space_before t (remove_space_before t s)"
    by (rule remove_space_before_established [OF assms(1,5)])
  have t: "tight (remove_space_before t s)"
    by (rule deletes_tight [OF remove_space_before_deletes assms(1)])
  have "no_space_before t u"
    by (rule deletes_no_space_before [OF assms(2) t e])
  then show ?thesis
    by (rule same_shape_no_space_before [OF assms(3) _ assms(4)])
qed

lemma mark_simps [simp]:
  "\<not> plain CHR '':''" "\<not> plain CHR '',''" "\<not> plain CHR ''{''" "\<not> plain CHR ''}''"
  "\<not> plain CHR ''[''" "\<not> plain CHR '']''"
  "\<not> is_space CHR '':''" "\<not> is_space CHR '',''" "\<not> is_space CHR '']''"
  by (simp_all add: plain_def is_space_def)

lemma literal_same_shape:
  "same_shape '': True'' '': true''" "same_shape '': False'' '': false''"
  by (simp_all add: same_shape_def)

lemma cleanJsonString_cleaned: "cleaned (cleanJsonString s)"
proof -
  define s1 where "s1 = trim_to_braces s"
  define s2 where "s2 = replace_space_runs '' '' s1"
  define s3 where "s3 = remove_space_after True CHR '':'' None s2"
  define s4 where "s4 = remove_space_before CHR '':'' s3"
  define s5 where "s5 = remove_space_after True CHR '','' None s4"
  define s6 where "s6 = remove_space_before CHR '','' s5"
  define s7 where "s7 = remove_space_after False CHR ''{'' None s6"
  define s8 where "s8 = remove_space_before CHR ''}'' s7"
  define s9 where "s9 = remove_space_after False CHR ''['' None s8"
  define s10 where "s10 = remove_space_before CHR '']'' s9"
  define s11 where "s11 = replace_all '': True'' '': true'' s10"
  define s12 where "s12 = replace_all '': False'' '': false'' s11"
  have r: "cleanJsonString s = s12"
    by (simp add: cleanJsonString_def Let_def s1_def s2_def s3_def s4_def s5_def s6_def
        s7_def s8_def s9_def s10_def s11_def s12_def)
  have d23: "deletes s2 s3" and d34: "deletes s3 s4" and d45: "deletes s4 s5"
    and d56: "deletes s5 s6" and d67: "deletes s6 s7" and d78: "deletes s7 s8"
    and d89: "deletes s8 s9" and d910: "deletes s9 s10"
    unfolding s3_def s4_def s5_def s6_def s7_def s8_def s9_def s10_def
    by (rule remove_space_after_deletes remove_space_before_deletes)+
  note d9 = d910
  note d8 = deletes_trans [OF d89 d9]
  note d7 = deletes_trans [OF d78 d8]
  note d6 = deletes_trans [OF d67 d7]
  note d5 = deletes_trans [OF d56 d6]
  note d4 = deletes_trans [OF d45 d5]
  note d3 = deletes_trans [OF d34 d4]
  note d2 = deletes_trans [OF d23 d3]
  have t2: "tight s2" unfolding s2_def by (rule collapse_tight)
  note t3 = deletes_tight [OF d23 t2]
  note t4 = deletes_tight [OF d34 t3]
  note t5 = deletes_tight [OF d45 t4]
  note t6 = deletes_tight [OF d56 t5]
  note t7 = deletes_tight [OF d67 t6]
  note t8 = deletes_tight [OF d78 t7]
  note t9 = deletes_tight [OF d89 t8]
  note t10 = deletes_tight [OF d910 t9]
  have sh11: "same_shape s10 s11" unfolding s11_def
    by (rule replace_all_same_shape [OF literal_same_shape(1)])
  have sh12: "same_shape s11 s12" unfolding s12_def
    by (rule replace_all_same_shape [OF literal_same_shape(2)])
  note sh = same_shape_trans [OF sh11 sh12]
  have b1: "braced s1" unfolding s1_def by (rule braced_trim_to_braces)
  have b2: "braced s2" unfolding s2_def by (rule collapse_braced [OF b1])
  have c1: "braced s12"
    by (rule same_shape_braced [OF sh deletes_braced [OF d2 b2]])
  have c2: "tight s12"
    by (rule same_shape_tight [OF sh t10])
  have c3: "no_space_after True CHR '':'' None s12"
    by (rule after_kept [OF t2 d3 [unfolded s3_def] sh]) simp
  have c4: "no_space_before CHR '':'' s12"
    by (rule before_kept [OF t3 d4 [unfolded s4_def] sh]) simp_all
  have c5: "no_space_after True CHR '','' None s12"
    by (rule after_kept [OF t4 d5 [unfolded s5_def] sh]) simp
  have c6: "no_space_before CHR '','' s12"
    by (rule before_kept [OF t5 d6 [unfolded s6_def] sh]) simp_all
  have c7: "no_space_after False CHR ''{'' None s12"
    by (rule after_kept [OF t6 d7 [unfolded s7_def] sh]) simp
  have c8: "no_space_before CHR ''}'' s12"
    by (rule before_kept [OF t7 d8 [unfolded s8_def] sh]) simp_all
  have c9: "no_space_after False CHR ''['' None s12"
    by (rule after_kept [OF t8 d9 [unfolded s9_def] sh]) simp
  have c10: "no_space_before CHR '']'' s12"
    by (rule before_kept [OF t9 deletes_refl sh [unfolded s10_def]]) simp_all
  have n11: "\<not> js_includes '': True'' s11" unfolding s11_def
    by (rule replace_all_no_occurrence) simp_all
  have c11: "\<not> js_includes '': True'' s12" unfolding s12_def
    by (rule replace_all_no_occurrence) (simp_all add: n11)
  have c12: "\<not> js_includes '': False'' s12" unfolding s12_def
    by (rule replace_all_no_occurrence) simp_all
  from c1 c2 c3 c4 c5 c6 c7 c8 c9 c10 c11 c12 show ?thesis
    unfolding r cleaned_def by simp
qed

lemma cleaned_fixed:
  assumes "cleaned r"
  shows "cleanJsonString r = r"
proof -
  from assms have c: "braced r" "tight r"
    "no_space_after True CHR '':'' None r" "no_space_before CHR '':'' r"
    "no_space_after True CHR '','' None r" "no_space_before CHR '','' r"
    "no_space_after False CHR ''{'' None r" "no_space_before CHR ''}'' r"
    "no_space_after False CHR ''['' None r" "no_space_before CHR '']'' r"
    "\<not> js_includes '': True'' r" "\<not> js_includes '': False'' r"
    by (simp_all add: cleaned_def)
  show ?thesis
    unfolding cleanJsonString_def Let_def
    by (simp only: trim_to_braces_fixed [OF c(1)] collapse_fixed [OF c(2)]
        remove_space_after_fixed [OF c(3)] remove_space_before_fixed [OF c(2) c(4)]
        remove_space_after_fixed [OF c(5)] remove_space_before_fixed [OF c(2) c(6)]
        remove_space_after_fixed [OF c(7)] remove_space_before_fixed [OF c(2) c(8)]
        remove_space_after_fixed [OF c(9)] remove_space_before_fixed [OF c(2) c(10)]
        replace_all_fixed [OF c(11)] replace_all_fixed [OF c(12)])
qed


subsection \<open>A literal behind a quoted key\<close>

lemma nonspace_prefix_tight:
  "list_all (\<lambda>c. \<not> is_space c) k \<Longrightarrow> tight (k @ r) = tight r"
  by (induction k) auto

lemma nonspace_prefix_before:
  "list_all (\<lambda>c. \<not> is_space c) k \<Longrightarrow> no_space_before t (k @ r) = no_space_before t r"
proof (induction k)
  case Nil
  show ?case by simp
next
  case (Cons c k)
  then have c: "\<not> is_space c" and k: "list_all (\<lambda>c. \<not> is_space c) k" by simp_all
  show ?case
  proof (cases "k @ r")
    case Nil
    then show ?thesis by simp
  next
    case (Cons d ds)
    with c have "no_space_before t ((c # k) @ r) = no_space_before t (k @ r)" by simp
    with Cons.IH [OF k] show ?thesis by simp
  qed
qed

lemma nonspace_prefix_after:
  "list_all (\<lambda>c. \<not> is_space c) k \<Longrightarrow> r \<noteq> [] \<Longrightarrow> \<not> is_space (hd r) \<Longrightarrow>
   no_space_after g t prev (k @ r) = no_space_after g t (if k = [] then prev else Some (last k)) r"
proof (induction k arbitrary: prev)
  case Nil
  show ?case by simp
next
  case (Cons c k)
  then have k: "list_all (\<lambda>c. \<not> is_space c) k" by simp
  from Cons.prems obtain d ds where e: "k @ r = d # ds" and d: "\<not> is_space d"
    by (cases k; cases r) auto
  from e d have "no_space_after g t prev ((c # k) @ r) = no_space_after g t (Some c) (k @ r)"
    by simp
  with Cons.IH [OF k Cons.prems(2,3), of "Some c"] show ?case by simp
qed

lemma replace_all_prefix:
  "p0 \<notin> set w \<Longrightarrow> replace_all (p0 # p') rep (w @ x) = w @ replace_all (p0 # p') rep x"
  by (induction w) (auto simp: replace_all_skip)

lemma plain_not_space: "list_all plain k \<Longrightarrow> list_all (\<lambda>c. \<not> is_space c) k"
  by (induction k) (auto simp: plain_def)

lemma plain_no_colon: "list_all plain k \<Longrightarrow> CHR '':'' \<notin> set k"
  by (induction k) (auto simp: plain_def)

lemma plain_no_brace: "list_all plain k \<Longrightarrow> CHR ''{'' \<notin> set k \<and> CHR ''}'' \<notin> set k"
  by (induction k) (auto simp: plain_def)

lemma spaces_fixed:
  assumes "braced u" "tight u"
    "no_space_after True CHR '':'' None u" "no_space_before CHR '':'' u"
    "no_space_after True CHR '','' None u" "no_space_before CHR '','' u"
    "no_space_after False CHR ''{'' None u" "no_space_before CHR ''}'' u"
    "no_space_after False CHR ''['' None u" "no_space_before CHR '']'' u"
  shows "cleanJsonString u = replace_all '': False'' '': false'' (replace_all '': True'' '': true'' u)"
  unfolding cleanJsonString_def Let_def
  by (simp only: trim_to_braces_fixed [OF assms(1)] collapse_fixed [OF assms(2)]
      remove_space_after_fixed [OF assms(3)] remove_space_before_fixed [OF assms(2) assms(4)]
      remove_space_after_fixed [OF assms(5)] remove_space_before_fixed [OF assms(2) assms(6)]
      remove_space_after_fixed [OF assms(7)] remove_space_before_fixed [OF assms(2) assms(8)]
      remove_space_after_fixed [OF assms(9)] remove_space_before_fixed [OF assms(2) assms(10)])

lemma quoted_key_literal:
  assumes k: "list_all plain k"
    and lit: "lit = ''True'' \<or> lit = ''False''"
  shows "cleanJsonString (''{'' @ quoted k @ '': '' @ lit @ ''}'') =
         replace_all '': False'' '': false''
           (replace_all '': True'' '': true'' (''{'' @ quoted k @ '': '' @ lit @ ''}''))"
proof -
  define w where "w = CHR ''{'' # CHR 0x22 # k"
  define r where "r = CHR 0x22 # '': '' @ lit @ ''}''"
  have u: "''{'' @ quoted k @ '': '' @ lit @ ''}'' = w @ r"
    by (simp add: quoted_def w_def r_def)
  have w: "list_all (\<lambda>c. \<not> is_space c) w" "w \<noteq> []"
    using plain_not_space [OF k] by (simp_all add: w_def is_space_def)
  have r: "r \<noteq> []" "\<not> is_space (hd r)" "last r = CHR ''}''"
    by (simp_all add: r_def)
  have b: "braced (w @ r)"
    using r(1,3) by (simp add: braced_def w_def)
  have t: "tight (w @ r)"
    unfolding nonspace_prefix_tight [OF w(1)] using lit by (auto simp: r_def is_space_def)
  have before: "no_space_before t (w @ r)" if "t \<noteq> CHR ''T''" "t \<noteq> CHR ''F''" for t
    unfolding nonspace_prefix_before [OF w(1)] using lit that by (auto simp: r_def is_space_def)
  have after: "no_space_after g t None (w @ r)" if "t \<noteq> CHR '':'' \<or> g" for g t
    unfolding nonspace_prefix_after [OF w(1) r(1,2)] using lit that w(2)
    by (auto simp: r_def is_space_def)
  show ?thesis
    unfolding u by (rule spaces_fixed [OF b t]) (simp_all add: before after)
qed

lemma quoted_key_rewritten:
  assumes "list_all plain k"
    and "(lit, lit') = (''True'', ''true'') \<or> (lit, lit') = (''False'', ''false'')"
  shows "cleanJsonString (''{'' @ quoted k @ '': '' @ lit @ ''}'') = ''{'' @ quoted k @ '': '' @ lit' @ ''}''"
proof -
  define w where "w = CHR ''{'' # CHR 0x22 # k"
  have c: "CHR '':'' \<notin> set w" using plain_no_colon [OF assms(1)] by (simp add: w_def)
  have u: "''{'' @ quoted k @ '': '' @ x @ ''}'' = w @ (CHR 0x22 # '': '' @ x @ ''}'')" for x
    by (simp add: quoted_def w_def)
  from assms(2) have l: "lit = ''True'' \<or> lit = ''False''" by auto
  have "replace_all '': False'' '': false''
          (replace_all '': True'' '': true'' (''{'' @ quoted k @ '': '' @ lit @ ''}'')) =
        ''{'' @ quoted k @ '': '' @ lit' @ ''}''"
    unfolding u using assms(2) by (auto simp: replace_all_prefix [OF c] replace_all.simps(2))
  with quoted_key_literal [OF assms(1) l] show ?thesis by simp
qed

section \<open>The cleanup of JSON text: results\<close>

lemma cleanJsonString_result:
  "cleaned (cleanJsonString s)"
  "\<not> js_includes '': True'' (cleanJsonString s)" "\<not> js_includes '': False'' (cleanJsonString s)"
  using cleanJsonString_cleaned [of s] by (simp_all add: cleaned_def)

lemma cleanJsonString_demo: "cleanJsonString demo_json = demo_json_cleaned"
  by code_simp

text \<open>
  Claim C5. \<open>cleanJsonString\<close> is idempotent: cleaning a cleaned string changes nothing, for
  every input. The capitalized truth value behind a quoted key is rewritten,
  \<open>{"b": True}\<close> to \<open>{"b": true}\<close>. With a blank in front of the colon it is not:
  \<open>{"b" : True}\<close> becomes \<open>{"b":True}\<close>, since the blank behind a colon that does not follow
  a double quote is removed before the truth values are looked for.
\<close>

theorem cleanJsonString_idempotent:
  "cleanJsonString (cleanJsonString s) = cleanJsonString s \<and>
   cleanJsonString (''{'' @ quoted ''b'' @ '': True}'') = ''{'' @ quoted ''b'' @ '': true}'' \<and>
   cleanJsonString (''{'' @ quoted ''b'' @ '' : True}'') = ''{'' @ quoted ''b'' @ '':True}'' \<and>
   cleanJsonString (''{'' @ quoted ''b'' @ '' : False}'') = ''{'' @ quoted ''b'' @ '':False}''"
proof -
  have "cleanJsonString (cleanJsonString s) = cleanJsonString s"
    by (rule cleaned_fixed [OF cleanJsonString_cleaned])
  moreover have "cleanJsonString (''{'' @ quoted ''b'' @ '': True}'') = ''{'' @ quoted ''b'' @ '': true}''"
    by code_simp
  moreover have "cleanJsonString (''{'' @ quoted ''b'' @ '' : True}'') = ''{'' @ quoted ''b'' @ '':True}''"
    by code_simp
  moreover have "cleanJsonString (''{'' @ quoted ''b'' @ '' : False}'') = ''{'' @ quoted ''b'' @ '':False}''"
    by code_simp
  ultimately show ?thesis by simp
qed
end
